theory Spec2Isabelle
  imports Main
begin

section \<open>Conventions of the embedding\<close>

text \<open>
  The development embeds the dense matrix type of \<^verbatim>\<open>Matrix.cpp\<close>, its predecessor with
  nested vectors (the second \<^verbatim>\<open>Matrix.cpp\<close> of the repository) and the network of
  \<^verbatim>\<open>NeuralNet.cpp\<close>.

  \<^item> The scalar type \<^verbatim>\<open>Val\<close> is declared in \<^verbatim>\<open>Matrix.h\<close>, which is not part of the
    sources at hand. It is a type parameter \<open>'a\<close> with \<open>0\<close>, \<open>+\<close>, \<open>-\<close> and \<open>*\<close> and
    no algebraic law at all, so that every statement also holds of a floating-point type,
    where addition is neither associative nor exact. Sums are therefore written as the loop
    computes them, from the left and starting at \<open>0\<close>.
  \<^item> \<^verbatim>\<open>std::size_t\<close> quantities (dimensions, indices and their products) are natural
    numbers. A matrix of \<open>2^64\<close> or more entries does not fit the address space, and the
    exhaustion of storage (\<^verbatim>\<open>std::bad_alloc\<close>, \<^verbatim>\<open>std::length_error\<close>) is outside the model.
  \<^item> \<^verbatim>\<open>int\<close> variables are integers; where the range of a 32-bit \<^verbatim>\<open>int\<close> matters
    (stream extraction into an \<^verbatim>\<open>int\<close>, an \<^verbatim>\<open>int\<close> passed for a \<^verbatim>\<open>size_t\<close>, an
    \<^verbatim>\<open>int\<close> counting up to a \<^verbatim>\<open>size_t\<close> bound) the range, the conversion modulo
    \<open>2^64\<close> and the overflow are written out.
  \<^item> A failed \<^verbatim>\<open>assert\<close>, an exception and undefined behaviour (an unchecked access
    outside a \<^verbatim>\<open>std::vector\<close>, \<^verbatim>\<open>front()\<close> or \<^verbatim>\<open>back()\<close> of an empty one) are error
    values: a function that can run into one returns \<open>error + 'a\<close>.
\<close>

datatype error =
    AssertFail            \<comment> \<open>an \<^verbatim>\<open>assert\<close> of the source does not hold\<close>
  | Undefined             \<comment> \<open>undefined behaviour: access outside a vector, overflow of an \<^verbatim>\<open>int\<close>\<close>
  | OutOfRange            \<comment> \<open>\<^verbatim>\<open>std::out_of_range\<close>, thrown by \<^verbatim>\<open>vector::at\<close>\<close>
  | DimensionMismatch     \<comment> \<open>element-wise operator on operands of different shape\<close>

definition bindE :: "error + 'a \<Rightarrow> ('a \<Rightarrow> error + 'b) \<Rightarrow> error + 'b" where
  "bindE m f = (case m of Inl e \<Rightarrow> Inl e | Inr x \<Rightarrow> f x)"

text \<open>A counting \<^verbatim>\<open>for\<close> loop over the values \<open>xs\<close> of its index; it stops at the first error.\<close>

fun foldE :: "('i \<Rightarrow> 's \<Rightarrow> error + 's) \<Rightarrow> 'i list \<Rightarrow> 's \<Rightarrow> error + 's" where
  "foldE f [] s = Inr s"
| "foldE f (x # xs) s = bindE (f x s) (foldE f xs)"

text \<open>\<^verbatim>\<open>v[i]\<close> of a \<^verbatim>\<open>std::vector\<close>, read and written: no bounds check, so undefined outside.\<close>

definition load :: "'a list \<Rightarrow> nat \<Rightarrow> error + 'a" where
  "load v i = (if i < length v then Inr (v ! i) else Inl Undefined)"

definition store :: "'a list \<Rightarrow> nat \<Rightarrow> 'a \<Rightarrow> error + 'a list" where
  "store v i x = (if i < length v then Inr (v[i := x]) else Inl Undefined)"

text \<open>\<^verbatim>\<open>v.at(i)\<close>: the checked access.\<close>

definition at_vec :: "'a list \<Rightarrow> nat \<Rightarrow> error + 'a" where
  "at_vec v i = (if i < length v then Inr (v ! i) else Inl OutOfRange)"

text \<open>\<^verbatim>\<open>v.back()\<close>: undefined on an empty vector.\<close>

definition back_vec :: "'a list \<Rightarrow> error + 'a" where
  "back_vec v = (if v = [] then Inl Undefined else Inr (last v))"

section \<open>The matrix with contiguous storage (\<^verbatim>\<open>Matrix.cpp\<close>)\<close>

record 'a Matrix =
  data :: "'a list"
  rows :: nat
  cols :: nat

text \<open>
  \<^verbatim>\<open>Matrix::Matrix(const size_t row, const size_t col, const Val initVal)\<close>:
  \<^verbatim>\<open>data(row * col, initVal), rows(row), cols(col)\<close>.
\<close>

definition Matrix_ctor :: "nat \<Rightarrow> nat \<Rightarrow> 'a \<Rightarrow> 'a Matrix" where
  "Matrix_ctor row col initVal = \<lparr>data = replicate (row * col) initVal, rows = row, cols = col\<rparr>"

text \<open>
  Modelled from the spec: the accessors of \<^verbatim>\<open>Matrix.h\<close>, which is missing
  (\<open>width() == cols\<close>, \<open>height() == rows\<close>).
\<close>

definition height :: "'a Matrix \<Rightarrow> nat" where
  "height m = rows m"

definition width :: "'a Matrix \<Rightarrow> nat" where
  "width m = cols m"

text \<open>The range of a 32-bit \<^verbatim>\<open>int\<close>.\<close>

definition INT_MAX :: int where
  "INT_MAX = 2147483647"

definition INT_MIN :: int where
  "INT_MIN = - 2147483648"

text \<open>
  \<^verbatim>\<open>for (int i = 0; (i < n); i++)\<close> with a bound \<open>n\<close> of type \<^verbatim>\<open>size_t\<close>. The counter
  is never negative, so the comparison is the one of the numbers. For \<open>n\<close> up to
  \<^verbatim>\<open>INT_MAX\<close> the body runs for \<open>i = 0, ..., n - 1\<close>. For a larger \<open>n\<close> it runs for
  \<open>i = 0, ..., INT_MAX\<close> and then \<^verbatim>\<open>i++\<close> overflows the \<^verbatim>\<open>int\<close>: undefined
  behaviour.
\<close>

definition for_int :: "(nat \<Rightarrow> 's \<Rightarrow> error + 's) \<Rightarrow> nat \<Rightarrow> 's \<Rightarrow> error + 's" where
  "for_int body n s =
     (if int n \<le> INT_MAX then foldE body [0..<n] s
      else bindE (foldE body [0..<nat INT_MAX + 1] s) (\<lambda>s. Inl Undefined))"

text \<open>
  \<^verbatim>\<open>Matrix::transpose\<close>. An empty matrix is returned as it is. Otherwise the loops,
  which count the rows and the columns with \<^verbatim>\<open>int row\<close> and \<^verbatim>\<open>int col\<close>, store
  \<^verbatim>\<open>data[row * cols + col]\<close> at \<^verbatim>\<open>result.data[col * rows + row]\<close>.
\<close>

definition transpose_m :: "'a::zero Matrix \<Rightarrow> error + 'a Matrix" where
  "transpose_m m =
     (if rows m = 0 \<or> cols m = 0 then Inr m
      else
        let result = Matrix_ctor (width m) (height m) 0 in
        bindE
          (for_int (\<lambda>row. for_int (\<lambda>col d.
                      bindE (load (data m) (row * cols m + col))
                        (\<lambda>x. store d (col * rows m + row) x))
                    (width m))
             (height m) (data result))
          (\<lambda>d. Inr (result\<lparr>data := d\<rparr>)))"

text \<open>
  \<^verbatim>\<open>Matrix::dot\<close>. The right-hand side is transposed first; entry \<open>(row, col)\<close> of the
  result is set to \<open>0\<close> and then accumulates
  \<^verbatim>\<open>data[row * width + i] * transposed_rhs.data[col * width + i]\<close> for \<open>i = 0, 1, ...\<close>.
\<close>

definition dot :: "'a::{zero,plus,times} Matrix \<Rightarrow> 'a Matrix \<Rightarrow> error + 'a Matrix" where
  "dot m rhs =
     (if cols m \<noteq> rows rhs then Inl AssertFail
      else
        let mWidth = cols rhs; width = cols m;
            result = Matrix_ctor (rows m) mWidth 0 in
        bindE (transpose_m rhs) (\<lambda>transposed_rhs.
        bindE
          (foldE (\<lambda>row. foldE (\<lambda>col d.
                    bindE (store d (row * mWidth + col) 0)
                      (foldE (\<lambda>i d.
                         bindE (load d (row * mWidth + col)) (\<lambda>acc.
                         bindE (load (data m) (row * width + i)) (\<lambda>a.
                         bindE (load (data transposed_rhs) (col * width + i)) (\<lambda>b.
                           store d (row * mWidth + col) (acc + a * b)))))
                       [0..<width]))
                  [0..<mWidth])
             [0..<rows m] (data result))
          (\<lambda>d. Inr (result\<lparr>data := d\<rparr>))))"

text \<open>
  The invariant of the data model: the backing store has \<open>rows * cols\<close> entries.
  Entry \<open>(i, j)\<close> is \<open>data[i * cols + j]\<close> (row-major).
\<close>

definition wf_m :: "'a Matrix \<Rightarrow> bool" where
  "wf_m m = (length (data m) = rows m * cols m)"

definition entry :: "'a Matrix \<Rightarrow> nat \<Rightarrow> nat \<Rightarrow> 'a" where
  "entry m i j = data m ! (i * cols m + j)"

text \<open>
  The \<^verbatim>\<open>int\<close> counters of \<^verbatim>\<open>transpose\<close> can count the rows and the columns of \<open>m\<close>:
  the matrix is empty, so that no loop runs, or neither dimension exceeds \<^verbatim>\<open>INT_MAX\<close>.
\<close>

definition fits_int :: "'a Matrix \<Rightarrow> bool" where
  "fits_int m =
     (rows m = 0 \<or> cols m = 0 \<or> (int (rows m) \<le> INT_MAX \<and> int (cols m) \<le> INT_MAX))"

text \<open>The sum \<open>f 0 + f 1 + ... + f (n - 1)\<close> in the order of the loop, starting from \<open>0\<close>.\<close>

definition sum_k :: "(nat \<Rightarrow> 'a::{zero,plus}) \<Rightarrow> nat \<Rightarrow> 'a" where
  "sum_k f n = foldl (\<lambda>s k. s + f k) 0 [0..<n]"


section \<open>The element-wise operators of \<^verbatim>\<open>Matrix.h\<close>\<close>

text \<open>
  Modelled from the spec: \<^verbatim>\<open>operator+\<close> and \<^verbatim>\<open>operator-\<close> of \<^verbatim>\<open>Matrix.h\<close>, which is
  missing (element-wise, same shape required, else fails; a new matrix of the same shape
  with the entries summed or subtracted).
\<close>

definition add_m :: "'a::plus Matrix \<Rightarrow> 'a Matrix \<Rightarrow> error + 'a Matrix" where
  "add_m m rhs =
     (if rows m = rows rhs \<and> cols m = cols rhs
      then Inr (m\<lparr>data := map2 (+) (data m) (data rhs)\<rparr>)
      else Inl DimensionMismatch)"

definition subtract_m :: "'a::minus Matrix \<Rightarrow> 'a Matrix \<Rightarrow> error + 'a Matrix" where
  "subtract_m m rhs =
     (if rows m = rows rhs \<and> cols m = cols rhs
      then Inr (m\<lparr>data := map2 (-) (data m) (data rhs)\<rparr>)
      else Inl DimensionMismatch)"

text \<open>
  Modelled from the spec: the element-wise \<^verbatim>\<open>operator*\<close> of two matrices in \<^verbatim>\<open>Matrix.h\<close>,
  which is missing (the Hadamard product, same shape required).
\<close>

definition hadamard_m :: "'a::times Matrix \<Rightarrow> 'a Matrix \<Rightarrow> error + 'a Matrix" where
  "hadamard_m m rhs =
     (if rows m = rows rhs \<and> cols m = cols rhs
      then Inr (m\<lparr>data := map2 (*) (data m) (data rhs)\<rparr>)
      else Inl DimensionMismatch)"

text \<open>
  Modelled from the spec: \<^verbatim>\<open>operator*\<close> with a scalar in \<^verbatim>\<open>Matrix.h\<close>, which is missing
  (a new matrix scaled element-wise).
\<close>

definition scale_m :: "'a::times Matrix \<Rightarrow> 'a \<Rightarrow> 'a Matrix" where
  "scale_m m x = m\<lparr>data := map (\<lambda>v. v * x) (data m)\<rparr>"

text \<open>
  Modelled from the spec: \<^verbatim>\<open>Matrix::apply\<close> of \<^verbatim>\<open>Matrix.h\<close>, which is missing
  (a new matrix with the function mapped over every element).
\<close>

definition apply_m :: "('a \<Rightarrow> 'a) \<Rightarrow> 'a Matrix \<Rightarrow> 'a Matrix" where
  "apply_m f m = m\<lparr>data := map f (data m)\<rparr>"

text \<open>
  Modelled from the spec: \<^verbatim>\<open>m[i].size()\<close>, the length of row \<open>i\<close> read through
  \<^verbatim>\<open>operator[]\<close> of \<^verbatim>\<open>Matrix.h\<close>, which is missing (element access outside the declared
  shape is undefined; a row has \<open>cols\<close> entries).
\<close>

definition row_size :: "'a Matrix \<Rightarrow> nat \<Rightarrow> error + nat" where
  "row_size m i = (if i < rows m then Inr (cols m) else Inl Undefined)"

section \<open>The matrix with nested vectors (the earlier \<^verbatim>\<open>Matrix.cpp\<close>)\<close>







section \<open>The network (\<^verbatim>\<open>NeuralNet.cpp\<close>)\<close>

text \<open>
  The class holds the layer sizes as a \<open>1 \<times> L\<close> matrix of \<^verbatim>\<open>Val\<close> and two vectors of
  matrices. The activation function \<^verbatim>\<open>sigmoid\<close> and its derivative \<^verbatim>\<open>invSigmoid\<close> are
  declared in \<^verbatim>\<open>NeuralNet.h\<close>, which is missing: they are parameters of \<open>learn\<close> and
  \<open>classify\<close>, and so is the conversion \<open>val_of_int\<close> from \<^verbatim>\<open>int\<close> to \<^verbatim>\<open>Val\<close>.
\<close>

record 'a NeuralNet =
  layerSizes :: "'a Matrix"
  biases :: "'a Matrix list"
  weights :: "'a Matrix list"

text \<open>An \<^verbatim>\<open>int\<close> passed where the constructor of \<^verbatim>\<open>Matrix\<close> takes a \<^verbatim>\<open>size_t\<close>.\<close>

definition size_t_of_int :: "int \<Rightarrow> nat" where
  "size_t_of_int i = nat (i mod 2 ^ 64)"

text \<open>
  An \<^verbatim>\<open>int\<close> used as the index of a vector: it is converted to \<^verbatim>\<open>size_t\<close>, so a negative
  one lies outside every vector. \<open>load_int\<close> is \<^verbatim>\<open>v[i]\<close>, \<open>at_int\<close> is \<^verbatim>\<open>v.at(i)\<close>.
\<close>

definition load_int :: "'a list \<Rightarrow> int \<Rightarrow> error + 'a" where
  "load_int v i = (if 0 \<le> i \<and> i < int (length v) then Inr (v ! nat i) else Inl Undefined)"

definition store_int :: "'a list \<Rightarrow> int \<Rightarrow> 'a \<Rightarrow> error + 'a list" where
  "store_int v i x =
     (if 0 \<le> i \<and> i < int (length v) then Inr (v[nat i := x]) else Inl Undefined)"

definition at_int :: "'a list \<Rightarrow> int \<Rightarrow> error + 'a" where
  "at_int v i = (if 0 \<le> i \<and> i < int (length v) then Inr (v ! nat i) else Inl OutOfRange)"

text \<open>
  \<^verbatim>\<open>NeuralNet::initBiasAndWeightMatrices\<close>: for \<open>lyr = 1, ..., layerSizes.size() - 1\<close> it
  appends \<^verbatim>\<open>Matrix(rows, 1)\<close> to the biases and \<^verbatim>\<open>Matrix(rows, cols)\<close> to the weights,
  with \<^verbatim>\<open>rows = layerSizes.at(lyr)\<close> and \<^verbatim>\<open>cols = layerSizes.at(lyr - 1)\<close>. The initial
  value of a matrix entry is the default \<open>0\<close> of the constructor. The parameter
  \<^verbatim>\<open>layerSizes\<close> is called \<open>sizes\<close> here, the name being taken by the field.
\<close>

definition initBiasAndWeightMatrices ::
  "int list \<Rightarrow> 'a::zero Matrix list \<times> 'a Matrix list \<Rightarrow> error + ('a Matrix list \<times> 'a Matrix list)"
where
  "initBiasAndWeightMatrices sizes bw =
     foldE (\<lambda>lyr (biases, weights).
              bindE (at_vec sizes lyr) (\<lambda>rows.
              bindE (at_vec sizes (lyr - 1)) (\<lambda>cols.
                Inr (biases @ [Matrix_ctor (size_t_of_int rows) 1 0],
                     weights @ [Matrix_ctor (size_t_of_int rows) (size_t_of_int cols) 0]))))
       [1..<length sizes] bw"

text \<open>
  The constructor: \<^verbatim>\<open>layerSizes(1, layers.size())\<close>, \<^verbatim>\<open>std::copy_n\<close> of the layer sizes
  into row \<open>0\<close>, then the helper above on the empty vectors.
\<close>

definition NeuralNet_ctor :: "(int \<Rightarrow> 'a) \<Rightarrow> int list \<Rightarrow> error + 'a::zero NeuralNet" where
  "NeuralNet_ctor val_of_int layers =
     (let layerSizes0 = Matrix_ctor 1 (length layers) 0;
          layerSizes1 = layerSizes0\<lparr>data := map val_of_int layers @ drop (length layers) (data layerSizes0)\<rparr>
      in bindE (initBiasAndWeightMatrices layers ([], []))
           (\<lambda>(biases, weights).
              Inr \<lparr>layerSizes = layerSizes1, biases = biases, weights = weights\<rparr>))"

text \<open>
  \<^verbatim>\<open>NeuralNet::classify\<close>, a \<^verbatim>\<open>const\<close> method. The loop runs on the object and the
  local \<^verbatim>\<open>result\<close>; the call returns the result together with the object after the call.
\<close>

definition classify ::
  "('a \<Rightarrow> 'a) \<Rightarrow> 'a::{zero,plus,times} NeuralNet \<Rightarrow> 'a Matrix \<Rightarrow> error + ('a Matrix \<times> 'a NeuralNet)"
where
  "classify sigmoid this inputs =
     bindE
       (foldE (\<lambda>lyr (this, result).
                 bindE (load (weights this) lyr) (\<lambda>w.
                 bindE (dot w result) (\<lambda>wr.
                 bindE (load (biases this) lyr) (\<lambda>b.
                 bindE (add_m wr b) (\<lambda>z. Inr (this, apply_m sigmoid z))))))
          [0..<length (weights this)] (this, inputs))
       (\<lambda>(this, result). Inr (result, this))"

text \<open>
  \<^verbatim>\<open>NeuralNet::learn\<close>, in four parts as in the source: the forward loop, the error of
  the output layer, the backward loop and the update loop. \<^verbatim>\<open>push_back\<close> appends.
\<close>

definition learn_forward ::
  "('a \<Rightarrow> 'a) \<Rightarrow> 'a::{zero,plus,times} NeuralNet \<Rightarrow> 'a Matrix
     \<Rightarrow> error + ('a Matrix \<times> 'a Matrix list \<times> 'a Matrix list)"
where
  "learn_forward sigmoid this inputs =
     foldE (\<lambda>lyr (activation, activations, zs).
              bindE (load (weights this) lyr) (\<lambda>w.
              bindE (dot w activation) (\<lambda>wa.
              bindE (load (biases this) lyr) (\<lambda>b.
              bindE (add_m wa b) (\<lambda>z.
                let zs = zs @ [z] in
                bindE (back_vec zs) (\<lambda>zb.
                  let activation = apply_m sigmoid zb in
                  Inr (activation, activations @ [activation], zs)))))))
       [0..<length (biases this)] (inputs, [inputs], [])"

definition learn_backward ::
  "('a \<Rightarrow> 'a) \<Rightarrow> 'a::{zero,plus,times} NeuralNet \<Rightarrow> int \<Rightarrow> 'a Matrix list \<Rightarrow> 'a Matrix list
     \<Rightarrow> 'a Matrix \<times> 'a Matrix list \<times> 'a Matrix list
     \<Rightarrow> error + ('a Matrix \<times> 'a Matrix list \<times> 'a Matrix list)"
where
  "learn_backward invSigmoid this lastLyr activations zs st =
     foldE (\<lambda>lyr (delta, nabla_b, nabla_w).
              bindE (load_int zs (lastLyr - lyr)) (\<lambda>z.
                let sp = apply_m invSigmoid z in
                bindE (load_int (weights this) (lastLyr - lyr + 1)) (\<lambda>w.
                bindE (transpose_m w) (\<lambda>wt.
                bindE (dot wt delta) (\<lambda>wd.
                bindE (hadamard_m wd sp) (\<lambda>delta.
                  let nabla_b = nabla_b @ [delta] in
                  bindE (load_int activations (lastLyr - lyr)) (\<lambda>a.
                  bindE (transpose_m a) (\<lambda>at.
                  bindE (dot delta at) (\<lambda>nw.
                    Inr (delta, nabla_b, nabla_w @ [nw]))))))))))
       [2..lastLyr] st"

definition learn_update ::
  "'a::{minus,times} \<Rightarrow> int \<Rightarrow> 'a Matrix list \<Rightarrow> 'a Matrix list \<Rightarrow> 'a NeuralNet
     \<Rightarrow> error + 'a NeuralNet"
where
  "learn_update eta lastLyr nabla_b nabla_w this =
     bindE
       (foldE (\<lambda>lyr (revLyr, this).
                 bindE (load_int (weights this) lyr) (\<lambda>w.
                 bindE (load_int nabla_w revLyr) (\<lambda>nw.
                 bindE (subtract_m w (scale_m nw eta)) (\<lambda>w'.
                 bindE (store_int (weights this) lyr w') (\<lambda>weights'.
                   let this = this\<lparr>weights := weights'\<rparr> in
                   bindE (load_int (biases this) lyr) (\<lambda>b.
                   bindE (load_int nabla_b revLyr) (\<lambda>nb.
                   bindE (subtract_m b (scale_m nb eta)) (\<lambda>b'.
                   bindE (store_int (biases this) lyr b') (\<lambda>biases'.
                     Inr (revLyr - 1, this\<lparr>biases := biases'\<rparr>))))))))))
          [0..lastLyr - 1] (lastLyr - 1, this))
       (\<lambda>(revLyr, this). Inr this)"

definition learn ::
  "('a \<Rightarrow> 'a) \<Rightarrow> ('a \<Rightarrow> 'a) \<Rightarrow> 'a::{zero,plus,minus,times} NeuralNet \<Rightarrow> 'a Matrix \<Rightarrow> 'a Matrix \<Rightarrow> 'a
     \<Rightarrow> error + 'a NeuralNet"
where
  "learn sigmoid invSigmoid this inputs expected eta =
     bindE (learn_forward sigmoid this inputs) (\<lambda>(activation, activations, zs).
     bindE (back_vec activations) (\<lambda>a_last.
     bindE (subtract_m a_last expected) (\<lambda>err.
     bindE (back_vec zs) (\<lambda>z_last.
     bindE (hadamard_m err (apply_m invSigmoid z_last)) (\<lambda>delta.
     bindE (row_size (layerSizes this) 0) (\<lambda>n.
       let lastLyr = int n - 1 in
       bindE (at_int activations (lastLyr - 1)) (\<lambda>a.
       bindE (transpose_m a) (\<lambda>at.
       bindE (dot delta at) (\<lambda>nw.
       bindE (learn_backward invSigmoid this lastLyr activations zs (delta, [delta], [nw]))
         (\<lambda>(delta, nabla_b, nabla_w).
            learn_update eta lastLyr nabla_b nabla_w this))))))))))"


section \<open>Streams\<close>

text \<open>
  An output stream is the text written so far. An input stream is the text still to be
  read together with its \<^verbatim>\<open>failbit\<close>; once the bit is set every extraction is a no-op.
  The extractors are those of the standard library in the classic locale: they skip
  leading white space, fail at the end of the text without touching their argument,
  and otherwise store the value read, or \<open>0\<close> when no value can be read. An \<^verbatim>\<open>int\<close>
  out of the 32-bit range is stored as the nearest bound and sets \<^verbatim>\<open>failbit\<close>.
\<close>

record istream =
  buf :: string
  failbit :: bool

definition is_space :: "char \<Rightarrow> bool" where
  "is_space c = (let n = (of_char c :: nat) in n = 32 \<or> (9 \<le> n \<and> n \<le> 13))"

definition is_digit :: "char \<Rightarrow> bool" where
  "is_digit c = (let n = (of_char c :: nat) in 48 \<le> n \<and> n \<le> 57)"

definition digit_val :: "char \<Rightarrow> nat" where
  "digit_val c = of_char c - 48"

definition digits_val :: "string \<Rightarrow> nat" where
  "digits_val ds = foldl (\<lambda>a c. 10 * a + digit_val c) 0 ds"

definition digit_char :: "nat \<Rightarrow> char" where
  "digit_char d = char_of (48 + d)"

text \<open>\<^verbatim>\<open>os << n\<close> for a \<^verbatim>\<open>size_t\<close>: the decimal digits.\<close>

function show_nat :: "nat \<Rightarrow> string" where
  "show_nat n = (if n < 10 then [digit_char n] else show_nat (n div 10) @ [digit_char (n mod 10)])"
  by pat_completeness auto
termination
  by (relation "measure id") auto

declare show_nat.simps [simp del]

text \<open>\<^verbatim>\<open>is >> val\<close> for an \<^verbatim>\<open>int\<close>; \<open>val\<close> is the value the variable holds before.\<close>

definition rd_int :: "istream \<Rightarrow> int \<Rightarrow> istream \<times> int" where
  "rd_int ist val =
     (if failbit ist then (ist, val)
      else
        let s = dropWhile is_space (buf ist) in
        if s = [] then (\<lparr>buf = [], failbit = True\<rparr>, val)
        else
          let neg = (hd s = CHR ''-'');
              s1 = (if hd s = CHR ''-'' \<or> hd s = CHR ''+'' then tl s else s);
              ds = takeWhile is_digit s1;
              rest = dropWhile is_digit s1 in
          if ds = [] then (\<lparr>buf = rest, failbit = True\<rparr>, 0)
          else
            let v = (if neg then - int (digits_val ds) else int (digits_val ds)) in
            if INT_MAX < v then (\<lparr>buf = rest, failbit = True\<rparr>, INT_MAX)
            else if v < INT_MIN then (\<lparr>buf = rest, failbit = True\<rparr>, INT_MIN)
            else (\<lparr>buf = rest, failbit = False\<rparr>, v))"

text \<open>
  \<^verbatim>\<open>is >> val\<close> for a \<^verbatim>\<open>Val\<close>. The parser \<open>readVal\<close> of the scalar type is a parameter:
  on a text that starts with a character other than white space it returns the value,
  if there is one, and the text left.
\<close>

definition rd_val :: "(string \<Rightarrow> 'a option \<times> string) \<Rightarrow> istream \<Rightarrow> 'a::zero \<Rightarrow> istream \<times> 'a" where
  "rd_val readVal ist val =
     (if failbit ist then (ist, val)
      else
        let s = dropWhile is_space (buf ist) in
        if s = [] then (\<lparr>buf = [], failbit = True\<rparr>, val)
        else
          (case readVal s of
             (Some v, rest) \<Rightarrow> (\<lparr>buf = rest, failbit = False\<rparr>, v)
           | (None, rest) \<Rightarrow> (\<lparr>buf = rest, failbit = True\<rparr>, 0)))"

text \<open>
  \<^verbatim>\<open>operator<<(std::ostream&, const Matrix&)\<close>: the header line, then each row with a
  blank after every entry and a newline at its end. \<open>showVal\<close> prints a \<^verbatim>\<open>Val\<close>.
\<close>

definition write_matrix :: "('a \<Rightarrow> string) \<Rightarrow> string \<Rightarrow> 'a Matrix \<Rightarrow> error + string" where
  "write_matrix showVal os matrix =
     foldE (\<lambda>row os.
              bindE
                (foldE (\<lambda>col os.
                          bindE (load (data matrix) (row * cols matrix + col))
                            (\<lambda>v. Inr (os @ showVal v @ '' '')))
                   [0..<cols matrix] os)
                (\<lambda>os. Inr (os @ [CHR 0x0A])))
       [0..<rows matrix]
       (os @ show_nat (height matrix) @ '' '' @ show_nat (width matrix) @ [CHR 0x0A])"

text \<open>
  \<^verbatim>\<open>operator>>(std::istream&, Matrix&)\<close>. The locals \<^verbatim>\<open>height\<close> and \<^verbatim>\<open>width\<close> are not
  initialised; the values they hold before the extraction are the pair \<open>junk\<close>.
\<close>

definition read_matrix ::
  "(string \<Rightarrow> 'a option \<times> string) \<Rightarrow> int \<times> int \<Rightarrow> istream \<Rightarrow> error + (istream \<times> 'a::zero Matrix)"
where
  "read_matrix readVal junk ist =
     (let (ist, height) = rd_int ist (fst junk);
          (ist, width) = rd_int ist (snd junk);
          matrix = Matrix_ctor (size_t_of_int height) (size_t_of_int width) 0 in
      foldE (\<lambda>row. foldE (\<lambda>col (ist, matrix).
               bindE (load (data matrix) (row * cols matrix + col)) (\<lambda>old.
                 let (ist, v) = rd_val readVal ist old in
                 bindE (store (data matrix) (row * cols matrix + col) v) (\<lambda>d.
                   Inr (ist, matrix\<lparr>data := d\<rparr>))))
             [0..<cols matrix])
        [0..<rows matrix] (ist, matrix))"

text \<open>
  \<^verbatim>\<open>operator<<(std::ostream&, const NeuralNet&)\<close>: the layer sizes, every bias and every
  weight, each followed by a newline.
\<close>

definition write_net :: "('a \<Rightarrow> string) \<Rightarrow> string \<Rightarrow> 'a NeuralNet \<Rightarrow> error + string" where
  "write_net showVal os nnet =
     bindE (write_matrix showVal os (layerSizes nnet)) (\<lambda>os.
     bindE (foldE (\<lambda>bias os. bindE (write_matrix showVal os bias) (\<lambda>os. Inr (os @ [CHR 0x0A])))
              (biases nnet) (os @ [CHR 0x0A])) (\<lambda>os.
       foldE (\<lambda>weight os. bindE (write_matrix showVal os weight) (\<lambda>os. Inr (os @ [CHR 0x0A])))
         (weights nnet) os))"

text \<open>
  \<^verbatim>\<open>operator>>(std::istream&, NeuralNet&)\<close>: the layer sizes, then \<^verbatim>\<open>layerCount\<close>
  matrices appended to the biases and \<^verbatim>\<open>layerCount\<close> matrices appended to the weights,
  where \<^verbatim>\<open>layerCount = nnet.layerSizes[0].size()\<close>. \<open>junk k\<close> is what the uninitialised
  locals hold in the \<open>k\<close>-th extraction of a matrix.
\<close>

definition read_net ::
  "(string \<Rightarrow> 'a option \<times> string) \<Rightarrow> (nat \<Rightarrow> int \<times> int) \<Rightarrow> istream \<Rightarrow> 'a::zero NeuralNet
     \<Rightarrow> error + (istream \<times> 'a NeuralNet)"
where
  "read_net readVal junk ist nnet =
     bindE (read_matrix readVal (junk 0) ist) (\<lambda>(ist, sizes).
       let nnet = nnet\<lparr>layerSizes := sizes\<rparr> in
       bindE (row_size (layerSizes nnet) 0) (\<lambda>layerCount.
       bindE (foldE (\<lambda>i (ist, nnet).
                 bindE (read_matrix readVal (junk (1 + i)) ist) (\<lambda>(ist, temp).
                   Inr (ist, nnet\<lparr>biases := biases nnet @ [temp]\<rparr>)))
                [0..<layerCount] (ist, nnet)) (\<lambda>(ist, nnet).
         foldE (\<lambda>i (ist, nnet).
                 bindE (read_matrix readVal (junk (1 + layerCount + i)) ist) (\<lambda>(ist, temp).
                   Inr (ist, nnet\<lparr>weights := weights nnet @ [temp]\<rparr>)))
           [0..<layerCount] (ist, nnet))))"

text \<open>
  An instance of the scalar type for concrete examples: \<^verbatim>\<open>Val\<close> is an integer, printed in
  decimal and read back as an optional sign followed by digits.
\<close>

definition show_int :: "int \<Rightarrow> string" where
  "show_int v = (if v < 0 then CHR ''-'' # show_nat (nat (- v)) else show_nat (nat v))"

definition read_int :: "string \<Rightarrow> int option \<times> string" where
  "read_int s =
     (let neg = (s \<noteq> [] \<and> hd s = CHR ''-'');
          s1 = (if s \<noteq> [] \<and> (hd s = CHR ''-'' \<or> hd s = CHR ''+'') then tl s else s);
          ds = takeWhile is_digit s1;
          rest = dropWhile is_digit s1 in
      if ds = [] then (None, rest)
      else (Some (if neg then - int (digits_val ds) else int (digits_val ds)), rest))"


section \<open>What the specification says\<close>

text \<open>
  The invariant of a network with the layer widths \<open>ws\<close>: the layer sizes are a
  \<open>1 \<times> L\<close> matrix, there are \<open>L - 1\<close> weights and biases, \<open>weights[l]\<close> is
  \<open>ws[l+1] \<times> ws[l]\<close>, \<open>biases[l]\<close> is \<open>ws[l+1] \<times> 1\<close>, and every matrix is well formed.
  A width is an \<^verbatim>\<open>int\<close> of the vector the constructor receives, so it is at most
  \<^verbatim>\<open>INT_MAX\<close>.
\<close>

definition shape :: "'a Matrix \<Rightarrow> nat \<times> nat" where
  "shape m = (rows m, cols m)"

definition net_inv :: "nat list \<Rightarrow> 'a NeuralNet \<Rightarrow> bool" where
  "net_inv ws net =
     (ws \<noteq> [] \<and> list_all (\<lambda>w. int w \<le> INT_MAX) ws
      \<and> shape (layerSizes net) = (1, length ws)
      \<and> map shape (weights net) = zip (tl ws) (butlast ws)
      \<and> map shape (biases net) = map (\<lambda>r. (r, 1)) (tl ws)
      \<and> list_all wf_m (weights net) \<and> list_all wf_m (biases net))"

text \<open>A column matrix with \<open>n\<close> rows.\<close>

definition column :: "nat \<Rightarrow> 'a Matrix \<Rightarrow> bool" where
  "column n m = (wf_m m \<and> shape m = (n, 1))"

text \<open>
  The forward evaluation in the words of the specification: for each layer in order,
  \<open>activation = sigmoid(weights[l].dot(activation) + biases[l])\<close>, starting from the input.
\<close>

fun classify_spec ::
  "('a \<Rightarrow> 'a) \<Rightarrow> ('a::{zero,plus,times} Matrix \<times> 'a Matrix) list \<Rightarrow> 'a Matrix \<Rightarrow> error + 'a Matrix"
where
  "classify_spec sigmoid [] activation = Inr activation"
| "classify_spec sigmoid ((w, b) # layers) activation =
     bindE (dot w activation) (\<lambda>wa.
     bindE (add_m wa b) (\<lambda>z. classify_spec sigmoid layers (apply_m sigmoid z)))"

text \<open>
  The learning step in the words of the specification.
  (1) The forward pass records, for every layer, the pre-activation \<open>z\<close> and the activation.
\<close>

fun forward_spec ::
  "('a \<Rightarrow> 'a) \<Rightarrow> ('a::{zero,plus,times} Matrix \<times> 'a Matrix) list \<Rightarrow> 'a Matrix
     \<Rightarrow> error + ('a Matrix \<times> 'a Matrix) list"
where
  "forward_spec sigmoid [] activation = Inr []"
| "forward_spec sigmoid ((w, b) # layers) activation =
     bindE (dot w activation) (\<lambda>wa.
     bindE (add_m wa b) (\<lambda>z.
     bindE (forward_spec sigmoid layers (apply_m sigmoid z)) (\<lambda>rest.
       Inr ((z, apply_m sigmoid z) # rest))))"

text \<open>(2) The output error: \<open>delta = (finalActivation - expected) \<odot> sigmoid'(z_last)\<close>.\<close>

definition output_delta ::
  "('a \<Rightarrow> 'a) \<Rightarrow> 'a::{minus,times} Matrix \<Rightarrow> 'a Matrix \<Rightarrow> 'a Matrix \<Rightarrow> error + 'a Matrix"
where
  "output_delta invSigmoid finalActivation expected z_last =
     bindE (subtract_m finalActivation expected) (\<lambda>err.
       hadamard_m err (apply_m invSigmoid z_last))"

text \<open>
  The gradients of one layer from its \<open>delta\<close>: the gradient of the bias is \<open>delta\<close>, the
  gradient of the weight is \<open>delta.dot(activation\<^sup>T)\<close> for the activation that enters the layer.
\<close>

definition gradients ::
  "'a::{zero,plus,times} Matrix \<Rightarrow> 'a Matrix \<Rightarrow> error + ('a Matrix \<times> 'a Matrix)"
where
  "gradients delta activation =
     bindE (transpose_m activation) (\<lambda>at.
     bindE (dot delta at) (\<lambda>gw. Inr (gw, delta)))"

text \<open>
  (3) Backward propagation, from the layer before the output back to the first: with
  \<open>delta\<close> and \<open>w_next\<close> the error and the weight of the layer after,
  \<open>delta' = (w_next\<^sup>T.dot(delta)) \<odot> sigmoid'(z)\<close>. The argument lists, for each layer
  from the last but one down to the first, its weight, its \<open>z\<close> and the activation that
  enters it; the result lists the gradients in the same order.
\<close>

fun backward_spec ::
  "('a \<Rightarrow> 'a) \<Rightarrow> 'a::{zero,plus,times} Matrix \<Rightarrow> 'a Matrix
     \<Rightarrow> ('a Matrix \<times> 'a Matrix \<times> 'a Matrix) list \<Rightarrow> error + ('a Matrix \<times> 'a Matrix) list"
where
  "backward_spec invSigmoid delta w_next [] = Inr []"
| "backward_spec invSigmoid delta w_next ((w, z, a) # earlier) =
     bindE (transpose_m w_next) (\<lambda>wt.
     bindE (dot wt delta) (\<lambda>wd.
     bindE (hadamard_m wd (apply_m invSigmoid z)) (\<lambda>delta'.
     bindE (gradients delta' a) (\<lambda>g.
     bindE (backward_spec invSigmoid delta' w earlier) (\<lambda>rest.
       Inr (g # rest))))))"

text \<open>
  (4) The update: for every layer, \<open>weights[l] -= eta * gradient_weight[l]\<close> and
  \<open>biases[l] -= eta * gradient_bias[l]\<close>.
\<close>

fun update_spec ::
  "'a::{minus,times} \<Rightarrow> (('a Matrix \<times> 'a Matrix) \<times> ('a Matrix \<times> 'a Matrix)) list
     \<Rightarrow> error + ('a Matrix \<times> 'a Matrix) list"
where
  "update_spec eta [] = Inr []"
| "update_spec eta (((w, b), (gw, gb)) # rest) =
     bindE (subtract_m w (scale_m gw eta)) (\<lambda>w'.
     bindE (subtract_m b (scale_m gb eta)) (\<lambda>b'.
     bindE (update_spec eta rest) (\<lambda>rest'.
       Inr ((w', b') # rest'))))"

definition learn_spec ::
  "('a \<Rightarrow> 'a) \<Rightarrow> ('a \<Rightarrow> 'a) \<Rightarrow> 'a::{zero,plus,minus,times} NeuralNet \<Rightarrow> 'a Matrix \<Rightarrow> 'a Matrix \<Rightarrow> 'a
     \<Rightarrow> error + 'a NeuralNet"
where
  "learn_spec sigmoid invSigmoid net inputs expected eta =
     (let layers = zip (weights net) (biases net) in
      bindE (forward_spec sigmoid layers inputs) (\<lambda>fw.
        if fw = [] then Inl Undefined
        else
          let zs = map fst fw;
              activations = inputs # map snd fw;
              entering = butlast activations in
          bindE (output_delta invSigmoid (last activations) expected (last zs)) (\<lambda>delta.
          bindE (gradients delta (last entering)) (\<lambda>g.
          bindE (backward_spec invSigmoid delta (last (weights net))
                   (rev (butlast (zip (weights net) (zip zs entering))))) (\<lambda>gs.
          bindE (update_spec eta (zip layers (rev (g # gs)))) (\<lambda>new.
            Inr (net\<lparr>weights := map fst new, biases := map snd new\<rparr>)))))))"

text \<open>
  A text starts with a number when, after white space and an optional sign, a digit
  follows; otherwise a header read from it is malformed.
\<close>

definition starts_numeric :: "string \<Rightarrow> bool" where
  "starts_numeric s =
     (let t = dropWhile is_space s;
          t1 = (if t \<noteq> [] \<and> (hd t = CHR ''-'' \<or> hd t = CHR ''+'') then tl t else t)
      in t1 \<noteq> [] \<and> is_digit (hd t1))"

text \<open>
  A text holds \<open>n\<close> values when \<open>n\<close> values can be read from it one after the other;
  a text that holds fewer values than the header promises is truncated.
\<close>

fun holds_values :: "(string \<Rightarrow> 'a option \<times> string) \<Rightarrow> nat \<Rightarrow> string \<Rightarrow> bool" where
  "holds_values readVal 0 s = True"
| "holds_values readVal (Suc n) s =
     (let t = dropWhile is_space s in
      t \<noteq> [] \<and> (case readVal t of (Some v, rest) \<Rightarrow> holds_values readVal n rest | (None, rest) \<Rightarrow> False))"

text \<open>
  The values that are read from a text before the first extraction that fails, \<open>n\<close> of
  them at most.
\<close>

fun values_read :: "(string \<Rightarrow> 'a option \<times> string) \<Rightarrow> nat \<Rightarrow> string \<Rightarrow> 'a list" where
  "values_read readVal 0 s = []"
| "values_read readVal (Suc n) s =
     (let t = dropWhile is_space s in
      if t = [] then []
      else (case readVal t of (Some v, rest) \<Rightarrow> v # values_read readVal n rest | (None, rest) \<Rightarrow> []))"

text \<open>
  The text printed for the scalar \<open>v\<close> is read back as the scalar \<open>u\<close>: the text does not
  start with white space, and read in front of a blank it gives \<open>u\<close> and leaves the blank.
  Where printing loses nothing \<open>u\<close> is \<open>v\<close>; with a limited print precision \<open>u\<close> is the value
  of the digits printed; the text of a value that is not a number (\<^verbatim>\<open>inf\<close> and \<^verbatim>\<open>nan\<close> of a
  floating-point \<^verbatim>\<open>Val\<close>) is read back as no value at all.
\<close>

definition reads_back ::
  "('a \<Rightarrow> string) \<Rightarrow> (string \<Rightarrow> 'a option \<times> string) \<Rightarrow> 'a \<Rightarrow> 'a \<Rightarrow> bool" where
  "reads_back showVal readVal v u =
     (showVal v \<noteq> [] \<and> \<not> is_space (hd (showVal v))
      \<and> (\<forall>rest. readVal (showVal v @ CHR '' '' # rest) = (Some u, CHR '' '' # rest)))"

text \<open>
  The header of a matrix is malformed when the text does not start with a number for the
  rows or, once that number is read, does not go on with a number for the columns.
\<close>

definition malformed_header :: "istream \<Rightarrow> bool" where
  "malformed_header ist =
     (\<not> starts_numeric (buf ist) \<or> \<not> starts_numeric (buf (fst (rd_int ist 0))))"

text \<open>
  A stream is truncated when its header is read as \<open>h\<close> rows and \<open>w\<close> columns and the text
  behind the header holds fewer than \<open>h * w\<close> values.
\<close>

definition truncated :: "(string \<Rightarrow> 'a option \<times> string) \<Rightarrow> istream \<Rightarrow> bool" where
  "truncated readVal ist =
     (let (ist1, h) = rd_int ist 0; (ist2, w) = rd_int ist1 0
      in \<not> failbit ist2 \<and> 0 \<le> h \<and> 0 \<le> w
         \<and> \<not> holds_values readVal (nat h * nat w) (buf ist2))"

section \<open>Auxiliary notions and examples\<close>


text \<open>Two small integer matrices, \<open>2 \<times> 3\<close> and \<open>3 \<times> 2\<close>, and an empty one, \<open>0 \<times> 3\<close>.\<close>

definition A0 :: "int Matrix" where
  "A0 = \<lparr>data = [1, 2, 3, 4, 5, 6], rows = 2, cols = 3\<rparr>"


definition E0 :: "int Matrix" where
  "E0 = Matrix_ctor 0 3 0"

text \<open>
  Two matrices of zeros with \<open>2\<^sup>3\<^sup>1\<close> entries, one more than \<^verbatim>\<open>INT_MAX\<close>: a single row
  and a single column.
\<close>

definition wide0 :: "int Matrix" where
  "wide0 = Matrix_ctor 1 2147483648 0"

definition tall0 :: "int Matrix" where
  "tall0 = Matrix_ctor 2147483648 1 0"

text \<open>
  A network with the layer widths \<open>2, 2, 1\<close> over the integers, a column of two entries
  to feed it, an expected output, and two functions in the place of the activation
  function and its derivative.
\<close>

definition net1 :: "int NeuralNet" where
  "net1 = \<lparr>layerSizes = \<lparr>data = [2, 2, 1], rows = 1, cols = 3\<rparr>,
           biases = [\<lparr>data = [1, 2], rows = 2, cols = 1\<rparr>, \<lparr>data = [3], rows = 1, cols = 1\<rparr>],
           weights = [\<lparr>data = [1, 2, 3, 4], rows = 2, cols = 2\<rparr>, \<lparr>data = [5, 6], rows = 1, cols = 2\<rparr>]\<rparr>"

definition x1 :: "int Matrix" where
  "x1 = \<lparr>data = [1, 1], rows = 2, cols = 1\<rparr>"

definition e1 :: "int Matrix" where
  "e1 = \<lparr>data = [7], rows = 1, cols = 1\<rparr>"

definition act1 :: "int \<Rightarrow> int" where
  "act1 v = v + 1"

definition dact1 :: "int \<Rightarrow> int" where
  "dact1 v = 2 * v"

text \<open>
  The network that the constructor makes of the widths \<open>0, 1\<close>, a layer without a neuron
  before one neuron, and the input for it, a column without an entry.
\<close>

definition net01 :: "int NeuralNet" where
  "net01 = \<lparr>layerSizes = \<lparr>data = [0, 1], rows = 1, cols = 2\<rparr>,
            biases = [\<lparr>data = [0], rows = 1, cols = 1\<rparr>],
            weights = [\<lparr>data = [], rows = 1, cols = 0\<rparr>]\<rparr>"

definition x01 :: "int Matrix" where
  "x01 = \<lparr>data = [], rows = 0, cols = 1\<rparr>"

text \<open>The network that the constructor makes of the single width \<open>1\<close>: it has no parameter.\<close>

definition net_single :: "int NeuralNet" where
  "net_single = \<lparr>layerSizes = \<lparr>data = [1], rows = 1, cols = 1\<rparr>, biases = [], weights = []\<rparr>"

text \<open>The network \<open>net1\<close> after one learning step on \<open>x1\<close>, \<open>e1\<close> with the rate \<open>3\<close>.\<close>

definition net1' :: "int NeuralNet" where
  "net1' = \<lparr>layerSizes = \<lparr>data = [2, 2, 1], rows = 1, cols = 3\<rparr>,
            biases = [\<lparr>data = [- 1731839, - 4675966], rows = 2, cols = 1\<rparr>,
                      \<lparr>data = [- 43293], rows = 1, cols = 1\<rparr>],
            weights = [\<lparr>data = [- 1731839, - 1731838, - 4675965, - 4675964], rows = 2, cols = 2\<rparr>,
                       \<lparr>data = [- 216475, - 432954], rows = 1, cols = 2\<rparr>]\<rparr>"

text \<open>
  The first \<open>n\<close> values of a text with the text left behind them, as the extractor of
  \<^verbatim>\<open>Val\<close> reads them one after the other; \<open>None\<close> when one of the extractions fails.
\<close>

fun take_values :: "(string \<Rightarrow> 'a option \<times> string) \<Rightarrow> nat \<Rightarrow> string \<Rightarrow> ('a list \<times> string) option" where
  "take_values readVal 0 s = Some ([], s)"
| "take_values readVal (Suc n) s =
     (let t = dropWhile is_space s in
      if t = [] then None
      else
        (case readVal t of
           (Some v, rest) \<Rightarrow>
             (case take_values readVal n rest of
                None \<Rightarrow> None
              | Some (vs, r) \<Rightarrow> Some (v # vs, r))
         | (None, rest) \<Rightarrow> None))"

text \<open>The text of the rows of a matrix as \<^verbatim>\<open>operator<<\<close> writes them.\<close>

definition row_text :: "('a \<Rightarrow> string) \<Rightarrow> 'a Matrix \<Rightarrow> nat \<Rightarrow> string" where
  "row_text showVal m r = concat (map (\<lambda>c. showVal (entry m r c) @ '' '') [0..<cols m]) @ [CHR 0x0A]"

definition matrix_text :: "('a \<Rightarrow> string) \<Rightarrow> 'a Matrix \<Rightarrow> string" where
  "matrix_text showVal m =
     show_nat (rows m) @ '' '' @ show_nat (cols m) @ [CHR 0x0A]
     @ concat (map (row_text showVal m) [0..<rows m])"

text \<open>
  The state of the loops of \<^verbatim>\<open>operator>>\<close> after \<open>k\<close> entries of an \<open>R \<times> C\<close> matrix,
  read from the text \<open>s0\<close>: the entries read before the first failure, zeros behind
  them, and a stream that has failed exactly when one of the \<open>k\<close> extractions has.
\<close>

definition cells_inv ::
  "(string \<Rightarrow> 'a option \<times> string) \<Rightarrow> string \<Rightarrow> nat \<Rightarrow> nat \<Rightarrow> nat \<Rightarrow> istream \<times> 'a::zero Matrix \<Rightarrow> bool" where
  "cells_inv readVal s0 R C k st =
     (rows (snd st) = R \<and> cols (snd st) = C \<and> length (data (snd st)) = R * C
      \<and> data (snd st)
          = values_read readVal k s0 @ replicate (R * C - length (values_read readVal k s0)) 0
      \<and> (case take_values readVal k s0 of
            None \<Rightarrow> failbit (fst st)
          | Some (vs, r) \<Rightarrow> fst st = \<lparr>buf = r, failbit = False\<rparr>))"




text \<open>
  A printer of limited precision for the integers: it prints the tens and a \<open>0\<close> in the
  place of the last digit. And a matrix to print with it.
\<close>

definition show_tens :: "int \<Rightarrow> string" where
  "show_tens v = show_int (10 * (v div 10))"

definition C0 :: "int Matrix" where
  "C0 = \<lparr>data = [11, 22, 33, 44], rows = 2, cols = 2\<rparr>"


text \<open>
  What \<^verbatim>\<open>operator<<\<close> writes for \<open>net1\<close>: the layer sizes, the two biases and the two
  weights, a blank after every entry and an empty line after every matrix.
\<close>

definition net1_text :: string where
  "net1_text = ''1 3'' @ [CHR 0x0A] @ ''2 2 1 '' @ [CHR 0x0A, CHR 0x0A]
     @ ''2 1'' @ [CHR 0x0A] @ ''1 '' @ [CHR 0x0A] @ ''2 '' @ [CHR 0x0A, CHR 0x0A]
     @ ''1 1'' @ [CHR 0x0A] @ ''3 '' @ [CHR 0x0A, CHR 0x0A]
     @ ''2 2'' @ [CHR 0x0A] @ ''1 2 '' @ [CHR 0x0A] @ ''3 4 '' @ [CHR 0x0A, CHR 0x0A]
     @ ''1 2'' @ [CHR 0x0A] @ ''5 6 '' @ [CHR 0x0A, CHR 0x0A]"
section \<open>Loops and the error monad\<close>

lemma bindE_Inr [simp]: "bindE (Inr x) f = f x" by (simp add: bindE_def)
lemma bindE_Inl [simp]: "bindE (Inl e) f = Inl e" by (simp add: bindE_def)

lemma foldE_append: "foldE f (xs @ ys) s = bindE (foldE f xs s) (foldE f ys)"
proof (induction xs arbitrary: s)
  case Nil
  show ?case by simp
next
  case (Cons x xs)
  show ?case by (cases "f x s") (simp_all add: Cons.IH)
qed

lemma foldE_upt_Suc: "foldE f [0..<Suc n] s = bindE (foldE f [0..<n] s) (f n)"
proof -
  have "foldE f [n] = f n" by (rule ext) (simp add: bindE_def split: sum.splits)
  then show ?thesis by (simp add: foldE_append)
qed

lemma foldE_upt_inv:
  assumes init: "P 0 s"
    and step: "\<And>i t. i < n \<Longrightarrow> P i t \<Longrightarrow> \<exists>t'. f i t = Inr t' \<and> P (Suc i) t'"
  shows "\<exists>t. foldE f [0..<n] s = Inr t \<and> P n t"
  using step
proof (induction n)
  case 0
  show ?case using init by simp
next
  case (Suc n)
  from Suc.IH Suc.prems obtain t where t: "foldE f [0..<n] s = Inr t" "P n t"
    by (metis less_Suc_eq)
  from Suc.prems [of n t] t obtain t' where "f n t = Inr t'" "P (Suc n) t'"
    by auto
  with t show ?case unfolding foldE_upt_Suc by simp
qed

lemma for_int_fits: "int n \<le> INT_MAX \<Longrightarrow> for_int body n = foldE body [0..<n]"
  by (rule ext) (simp add: for_int_def)

lemma foldE_only_Undefined:
  assumes f: "\<And>x s e. f x s = Inl e \<Longrightarrow> e = Undefined" and r: "foldE f xs s = Inl e"
  shows "e = Undefined"
  using r
proof (induction xs arbitrary: s)
  case Nil
  then show ?case by simp
next
  case (Cons x xs)
  show ?case
  proof (cases "f x s")
    case (Inl a)
    with Cons.prems f show ?thesis by simp
  next
    case (Inr t)
    with Cons.prems have "foldE f xs t = Inl e" by simp
    then show ?thesis by (rule Cons.IH)
  qed
qed

lemma for_int_overflow:
  assumes n: "INT_MAX < int n" and f: "\<And>x s e. f x s = Inl e \<Longrightarrow> e = Undefined"
  shows "for_int f n s = Inl Undefined"
proof (cases "foldE f [0..<nat INT_MAX + 1] s")
  case (Inl e)
  then have "e = Undefined" using f by (rule foldE_only_Undefined [rotated])
  with Inl n show ?thesis by (simp add: for_int_def)
next
  case (Inr t)
  with n show ?thesis by (simp add: for_int_def)
qed

lemma load_Inr: "i < length v \<Longrightarrow> load v i = Inr (v ! i)" by (simp add: load_def)
lemma store_Inr: "i < length v \<Longrightarrow> store v i x = Inr (v[i := x])" by (simp add: store_def)

lemma idx_less: "i < r \<Longrightarrow> j < c \<Longrightarrow> i * c + j < r * (c::nat)"
proof -
  assume a: "i < r" "j < c"
  then have "i * c + j < i * c + c" by simp
  also have "\<dots> = Suc i * c" by simp
  also have "\<dots> \<le> r * c" using a(1) by (intro mult_le_mono1) simp
  finally show ?thesis .
qed

lemma idx_inj: "j < c \<Longrightarrow> j' < c \<Longrightarrow> i * c + j = i' * c + j' \<Longrightarrow> i = i' \<and> j = (j'::nat)"
proof -
  assume a: "j < c" "j' < c" "i * c + j = i' * c + j'"
  then have "(i * c + j) div c = (i' * c + j') div c" "(i * c + j) mod c = (i' * c + j') mod c" by simp_all
  with a(1,2) show ?thesis by simp
qed

section \<open>Transposition and the product\<close>

lemma transpose_inner:
  assumes r: "r < R" and len: "length d = C * R" and src: "length src = R * C"
  shows "\<exists>d'. foldE (\<lambda>col d. bindE (load src (r * C + col)) (\<lambda>x. store d (col * R + r) x)) [0..<C] d = Inr d'
     \<and> length d' = C * R
     \<and> (\<forall>c<C. d' ! (c * R + r) = src ! (r * C + c))
     \<and> (\<forall>k. (\<forall>c<C. k \<noteq> c * R + r) \<longrightarrow> d' ! k = d ! k)"
proof -
  define P where "P n t \<longleftrightarrow> length t = C * R
     \<and> (\<forall>c<n. t ! (c * R + r) = src ! (r * C + c))
     \<and> (\<forall>k. (\<forall>c<C. k \<noteq> c * R + r) \<longrightarrow> t ! k = d ! k)" for n t
  have "\<exists>t. foldE (\<lambda>col d. bindE (load src (r * C + col)) (\<lambda>x. store d (col * R + r) x)) [0..<C] d = Inr t \<and> P C t"
  proof (rule foldE_upt_inv)
    show "P 0 d" by (simp add: P_def len)
  next
    fix i t assume i: "i < C" and Pt: "P i t"
    have a: "r * C + i < length src" using idx_less [OF r i] src by simp
    have b: "i * R + r < length t" using idx_less [OF i r] Pt by (simp add: P_def)
    let ?t' = "t[i * R + r := src ! (r * C + i)]"
    have "P (Suc i) ?t'"
      unfolding P_def
    proof (intro conjI allI impI)
      show "length ?t' = C * R" using Pt by (simp add: P_def)
    next
      fix c assume c: "c < Suc i"
      show "?t' ! (c * R + r) = src ! (r * C + c)"
      proof (cases "c = i")
        case True
        then show ?thesis using b by simp
      next
        case False
        with c have ci: "c < i" by simp
        have "c * R + r \<noteq> i * R + r" using False r by simp
        then show ?thesis using Pt ci by (simp add: P_def)
      qed
    next
      fix k assume k: "\<forall>c<C. k \<noteq> c * R + r"
      with i have "k \<noteq> i * R + r" by blast
      then show "?t' ! k = d ! k" using Pt k by (simp add: P_def)
    qed
    then show "\<exists>t'. bindE (load src (r * C + i)) (\<lambda>x. store t (i * R + r) x) = Inr t' \<and> P (Suc i) t'"
      using a b by (simp add: load_Inr store_Inr)
  qed
  then show ?thesis by (simp add: P_def)
qed

lemma transpose_loops:
  assumes src: "length src = R * C" and len: "length d = C * R"
  shows "\<exists>d'. foldE (\<lambda>row. foldE (\<lambda>col d. bindE (load src (row * C + col)) (\<lambda>x. store d (col * R + row) x)) [0..<C]) [0..<R] d = Inr d'
     \<and> length d' = C * R
     \<and> (\<forall>r<R. \<forall>c<C. d' ! (c * R + r) = src ! (r * C + c))"
proof -
  define P where "P n t \<longleftrightarrow> length t = C * R
     \<and> (\<forall>r<n. \<forall>c<C. t ! (c * R + r) = src ! (r * C + c))" for n t
  have "\<exists>t. foldE (\<lambda>row. foldE (\<lambda>col d. bindE (load src (row * C + col)) (\<lambda>x. store d (col * R + row) x)) [0..<C]) [0..<R] d = Inr t \<and> P R t"
  proof (rule foldE_upt_inv)
    show "P 0 d" by (simp add: P_def len)
  next
    fix i t assume i: "i < R" and Pt: "P i t"
    from Pt have lt: "length t = C * R" by (simp add: P_def)
    from transpose_inner [OF i lt src] obtain t' where
      t': "foldE (\<lambda>col d. bindE (load src (i * C + col)) (\<lambda>x. store d (col * R + i) x)) [0..<C] t = Inr t'"
      "length t' = C * R" "\<forall>c<C. t' ! (c * R + i) = src ! (i * C + c)"
      "\<forall>k. (\<forall>c<C. k \<noteq> c * R + i) \<longrightarrow> t' ! k = t ! k"
      by blast
    have "P (Suc i) t'"
      unfolding P_def
    proof (intro conjI allI impI)
      show "length t' = C * R" by (rule t'(2))
    next
      fix r c assume rc: "r < Suc i" "c < C"
      show "t' ! (c * R + r) = src ! (r * C + c)"
      proof (cases "r = i")
        case True
        then show ?thesis using t'(3) rc by simp
      next
        case False
        with rc have ri: "r < i" by simp
        then have rR: "r < R" using i by simp
        have "\<forall>c'<C. c * R + r \<noteq> c' * R + i"
          using idx_inj [OF rR i] False by blast
        then have "t' ! (c * R + r) = t ! (c * R + r)" using t'(4) by blast
        then show ?thesis using Pt ri rc by (simp add: P_def)
      qed
    qed
    with t'(1) show "\<exists>t'. foldE (\<lambda>col d. bindE (load src (i * C + col)) (\<lambda>x. store d (col * R + i) x)) [0..<C] t = Inr t' \<and> P (Suc i) t'"
      by blast
  qed
  then show ?thesis by (simp add: P_def)
qed

lemma transpose_m_nonempty:
  assumes "wf_m m" "0 < rows m" "0 < cols m" "int (rows m) \<le> INT_MAX" "int (cols m) \<le> INT_MAX"
  shows "\<exists>t. transpose_m m = Inr t \<and> rows t = cols m \<and> cols t = rows m \<and> wf_m t
     \<and> (\<forall>i<rows m. \<forall>j<cols m. entry t j i = entry m i j)"
proof -
  have src: "length (data m) = rows m * cols m" using assms(1) by (simp add: wf_m_def)
  have len: "length (replicate (cols m * rows m) (0::'a)) = cols m * rows m" by simp
  from transpose_loops [OF src len] obtain d' where d':
    "foldE (\<lambda>row. foldE (\<lambda>col d. bindE (load (data m) (row * cols m + col)) (\<lambda>x. store d (col * rows m + row) x)) [0..<cols m]) [0..<rows m] (replicate (cols m * rows m) 0) = Inr d'"
    "length d' = cols m * rows m"
    "\<forall>r<rows m. \<forall>c<cols m. d' ! (c * rows m + r) = data m ! (r * cols m + c)"
    by blast
  show ?thesis
    using assms(2-5) d'
    by (simp add: transpose_m_def for_int_fits Matrix_ctor_def width_def height_def wf_m_def
          entry_def)
qed

lemma transpose_m_overflow:
  assumes ne: "0 < rows m" "0 < cols m"
    and big: "INT_MAX < int (rows m) \<or> INT_MAX < int (cols m)"
  shows "transpose_m m = Inl Undefined"
proof -
  define cell where "cell row = (\<lambda>col d. bindE (load (data m) (row * cols m + col))
                        (\<lambda>x. store d (col * rows m + row) x))" for row
  have cell: "e = Undefined" if "cell row col d = Inl e" for row col d e
    using that by (auto simp: cell_def load_def store_def bindE_def split: if_splits)
  have line: "e = Undefined" if "for_int (cell row) (cols m) d = Inl e" for row d e
    using that cell
    by (auto simp: for_int_def bindE_def split: if_splits sum.splits dest: foldE_only_Undefined [rotated])
  have "for_int (\<lambda>row. for_int (cell row) (cols m)) (rows m) d = Inl Undefined" for d
  proof (cases "INT_MAX < int (rows m)")
    case True
    then show ?thesis using line by (rule for_int_overflow)
  next
    case False
    with big have c: "INT_MAX < int (cols m)" by simp
    have "for_int (cell 0) (cols m) d = Inl Undefined" using c cell by (rule for_int_overflow)
    moreover have "[0..<rows m] = 0 # [1..<rows m]" using ne(1) by (simp add: upt_conv_Cons)
    ultimately show ?thesis using False by (simp add: for_int_def)
  qed
  then show ?thesis using ne by (simp add: transpose_m_def width_def height_def cell_def)
qed

lemma dot_inner:
  assumes idx: "idx < length d" and A: "\<forall>i<w. r * w + i < length A" and T: "\<forall>i<w. c * w + i < length T"
  shows "foldE (\<lambda>i d. bindE (load d idx) (\<lambda>acc. bindE (load A (r * w + i)) (\<lambda>a.
            bindE (load T (c * w + i)) (\<lambda>b. store d idx (acc + a * b))))) [0..<w] d
         = Inr (d[idx := foldl (\<lambda>s i. s + A ! (r * w + i) * T ! (c * w + i)) (d ! idx) [0..<w]])"
proof -
  define P where "P n t \<longleftrightarrow> t = d[idx := foldl (\<lambda>s i. s + A ! (r * w + i) * T ! (c * w + i)) (d ! idx) [0..<n]]" for n t
  have "\<exists>t. foldE (\<lambda>i d. bindE (load d idx) (\<lambda>acc. bindE (load A (r * w + i)) (\<lambda>a.
            bindE (load T (c * w + i)) (\<lambda>b. store d idx (acc + a * b))))) [0..<w] d = Inr t \<and> P w t"
  proof (rule foldE_upt_inv)
    show "P 0 d" by (simp add: P_def)
  next
    fix i t assume i: "i < w" and Pt: "P i t"
    have lt: "idx < length t" using Pt idx by (simp add: P_def)
    have "P (Suc i) (t[idx := t ! idx + A ! (r * w + i) * T ! (c * w + i)])"
      using Pt idx by (simp add: P_def)
    then show "\<exists>t'. bindE (load t idx) (\<lambda>acc. bindE (load A (r * w + i)) (\<lambda>a.
            bindE (load T (c * w + i)) (\<lambda>b. store t idx (acc + a * b)))) = Inr t' \<and> P (Suc i) t'"
      using lt A T i by (simp add: load_Inr store_Inr)
  qed
  then show ?thesis by (simp add: P_def)
qed

lemma dot_cell:
  assumes idx: "idx < length d" and A: "\<forall>i<w. r * w + i < length A" and T: "\<forall>i<w. c * w + i < length T"
  shows "bindE (store d idx 0) (foldE (\<lambda>i d. bindE (load d idx) (\<lambda>acc. bindE (load A (r * w + i)) (\<lambda>a.
            bindE (load T (c * w + i)) (\<lambda>b. store d idx (acc + a * b))))) [0..<w])
         = Inr (d[idx := sum_k (\<lambda>i. A ! (r * w + i) * T ! (c * w + i)) w])"
proof -
  have "idx < length (d[idx := 0])" using idx by simp
  from dot_inner [OF this A T] show ?thesis
    using idx by (simp add: store_Inr sum_k_def)
qed

lemma dot_row:
  assumes r: "r < m" and len: "length d = m * p" and A: "length A = m * w" and T: "length T = p * w"
  shows "\<exists>d'. foldE (\<lambda>col d. bindE (store d (r * p + col) 0)
             (foldE (\<lambda>i d. bindE (load d (r * p + col)) (\<lambda>acc. bindE (load A (r * w + i)) (\<lambda>a.
                bindE (load T (col * w + i)) (\<lambda>b. store d (r * p + col) (acc + a * b))))) [0..<w])) [0..<p] d = Inr d'
     \<and> length d' = m * p
     \<and> (\<forall>c<p. d' ! (r * p + c) = sum_k (\<lambda>i. A ! (r * w + i) * T ! (c * w + i)) w)
     \<and> (\<forall>k. (\<forall>c<p. k \<noteq> r * p + c) \<longrightarrow> d' ! k = d ! k)"
proof -
  define P where "P n t \<longleftrightarrow> length t = m * p
     \<and> (\<forall>c<n. t ! (r * p + c) = sum_k (\<lambda>i. A ! (r * w + i) * T ! (c * w + i)) w)
     \<and> (\<forall>k. (\<forall>c<p. k \<noteq> r * p + c) \<longrightarrow> t ! k = d ! k)" for n t
  have "\<exists>t. foldE (\<lambda>col d. bindE (store d (r * p + col) 0)
             (foldE (\<lambda>i d. bindE (load d (r * p + col)) (\<lambda>acc. bindE (load A (r * w + i)) (\<lambda>a.
                bindE (load T (col * w + i)) (\<lambda>b. store d (r * p + col) (acc + a * b))))) [0..<w])) [0..<p] d = Inr t \<and> P p t"
  proof (rule foldE_upt_inv)
    show "P 0 d" by (simp add: P_def len)
  next
    fix c t assume c: "c < p" and Pt: "P c t"
    have idx: "r * p + c < length t" using idx_less [OF r c] Pt by (simp add: P_def)
    have a: "\<forall>i<w. r * w + i < length A" using idx_less [OF r] A by simp
    have b: "\<forall>i<w. c * w + i < length T" using idx_less [OF c] T by simp
    let ?t' = "t[r * p + c := sum_k (\<lambda>i. A ! (r * w + i) * T ! (c * w + i)) w]"
    have "P (Suc c) ?t'"
      unfolding P_def
    proof (intro conjI allI impI)
      show "length ?t' = m * p" using Pt by (simp add: P_def)
    next
      fix c' assume c': "c' < Suc c"
      show "?t' ! (r * p + c') = sum_k (\<lambda>i. A ! (r * w + i) * T ! (c' * w + i)) w"
      proof (cases "c' = c")
        case True
        then show ?thesis using idx by simp
      next
        case False
        with c' have "c' < c" by simp
        then show ?thesis using Pt False by (simp add: P_def)
      qed
    next
      fix k assume k: "\<forall>c<p. k \<noteq> r * p + c"
      with c have "k \<noteq> r * p + c" by blast
      then show "?t' ! k = d ! k" using Pt k by (simp add: P_def)
    qed
    then show "\<exists>t'. bindE (store t (r * p + c) 0)
             (foldE (\<lambda>i d. bindE (load d (r * p + c)) (\<lambda>acc. bindE (load A (r * w + i)) (\<lambda>a.
                bindE (load T (c * w + i)) (\<lambda>b. store d (r * p + c) (acc + a * b))))) [0..<w]) = Inr t' \<and> P (Suc c) t'"
      using dot_cell [OF idx a b] by simp
  qed
  then show ?thesis by (simp add: P_def)
qed

lemma dot_loops:
  assumes len: "length d = m * p" and A: "length A = m * w" and T: "length T = p * w"
  shows "\<exists>d'. foldE (\<lambda>row. foldE (\<lambda>col d. bindE (store d (row * p + col) 0)
             (foldE (\<lambda>i d. bindE (load d (row * p + col)) (\<lambda>acc. bindE (load A (row * w + i)) (\<lambda>a.
                bindE (load T (col * w + i)) (\<lambda>b. store d (row * p + col) (acc + a * b))))) [0..<w])) [0..<p]) [0..<m] d = Inr d'
     \<and> length d' = m * p
     \<and> (\<forall>r<m. \<forall>c<p. d' ! (r * p + c) = sum_k (\<lambda>i. A ! (r * w + i) * T ! (c * w + i)) w)"
proof -
  define P where "P n t \<longleftrightarrow> length t = m * p
     \<and> (\<forall>r<n. \<forall>c<p. t ! (r * p + c) = sum_k (\<lambda>i. A ! (r * w + i) * T ! (c * w + i)) w)" for n t
  have "\<exists>t. foldE (\<lambda>row. foldE (\<lambda>col d. bindE (store d (row * p + col) 0)
             (foldE (\<lambda>i d. bindE (load d (row * p + col)) (\<lambda>acc. bindE (load A (row * w + i)) (\<lambda>a.
                bindE (load T (col * w + i)) (\<lambda>b. store d (row * p + col) (acc + a * b))))) [0..<w])) [0..<p]) [0..<m] d = Inr t \<and> P m t"
  proof (rule foldE_upt_inv)
    show "P 0 d" by (simp add: P_def len)
  next
    fix r t assume r: "r < m" and Pt: "P r t"
    from Pt have lt: "length t = m * p" by (simp add: P_def)
    from dot_row [OF r lt A T] obtain t' where t':
      "foldE (\<lambda>col d. bindE (store d (r * p + col) 0)
             (foldE (\<lambda>i d. bindE (load d (r * p + col)) (\<lambda>acc. bindE (load A (r * w + i)) (\<lambda>a.
                bindE (load T (col * w + i)) (\<lambda>b. store d (r * p + col) (acc + a * b))))) [0..<w])) [0..<p] t = Inr t'"
      "length t' = m * p"
      "\<forall>c<p. t' ! (r * p + c) = sum_k (\<lambda>i. A ! (r * w + i) * T ! (c * w + i)) w"
      "\<forall>k. (\<forall>c<p. k \<noteq> r * p + c) \<longrightarrow> t' ! k = t ! k"
      by blast
    have "P (Suc r) t'"
      unfolding P_def
    proof (intro conjI allI impI)
      show "length t' = m * p" by (rule t'(2))
    next
      fix r' c assume rc: "r' < Suc r" "c < p"
      show "t' ! (r' * p + c) = sum_k (\<lambda>i. A ! (r' * w + i) * T ! (c * w + i)) w"
      proof (cases "r' = r")
        case True
        then show ?thesis using t'(3) rc by simp
      next
        case False
        with rc have rr: "r' < r" by simp
        have "\<forall>c'<p. r' * p + c \<noteq> r * p + c'"
          using idx_inj [OF rc(2)] False by blast
        then have "t' ! (r' * p + c) = t ! (r' * p + c)" using t'(4) by blast
        then show ?thesis using Pt rr rc by (simp add: P_def)
      qed
    qed
    with t'(1) show "\<exists>t'. foldE (\<lambda>col d. bindE (store d (r * p + col) 0)
             (foldE (\<lambda>i d. bindE (load d (r * p + col)) (\<lambda>acc. bindE (load A (r * w + i)) (\<lambda>a.
                bindE (load T (col * w + i)) (\<lambda>b. store d (r * p + col) (acc + a * b))))) [0..<w])) [0..<p] t = Inr t' \<and> P (Suc r) t'"
      by blast
  qed
  then show ?thesis by (simp add: P_def)
qed

lemma sum_k_cong: "(\<And>k. k < n \<Longrightarrow> f k = g k) \<Longrightarrow> sum_k f n = sum_k g n"
  unfolding sum_k_def by (rule foldl_cong) simp_all

lemma transpose_m_data:
  assumes "wf_m B" and f: "fits_int B"
  shows "\<exists>T. transpose_m B = Inr T \<and> length (data T) = cols B * rows B
     \<and> (\<forall>c<cols B. \<forall>i<rows B. data T ! (c * rows B + i) = entry B i c)"
proof (cases "rows B = 0 \<or> cols B = 0")
  case True
  then show ?thesis using assms by (auto simp: transpose_m_def wf_m_def)
next
  case False
  then have "0 < rows B" "0 < cols B" "int (rows B) \<le> INT_MAX" "int (cols B) \<le> INT_MAX"
    using f by (simp_all add: fits_int_def)
  from transpose_m_nonempty [OF assms(1) this] show ?thesis
    by (auto simp: wf_m_def entry_def)
qed


lemma dot_correct:
  assumes A: "wf_m A" and B: "wf_m B" and dim: "cols A = rows B" and fB: "fits_int B"
  shows "\<exists>R. dot A B = Inr R \<and> rows R = rows A \<and> cols R = cols B \<and> wf_m R
     \<and> (\<forall>i<rows A. \<forall>j<cols B. entry R i j = sum_k (\<lambda>k. entry A i k * entry B k j) (cols A))"
proof -
  from transpose_m_data [OF B fB] obtain T where T: "transpose_m B = Inr T"
    "length (data T) = cols B * rows B"
    "\<forall>c<cols B. \<forall>i<rows B. data T ! (c * rows B + i) = entry B i c"
    by blast
  have lenA: "length (data A) = rows A * rows B" using A dim by (simp add: wf_m_def)
  have len0: "length (replicate (rows A * cols B) (0::'a)) = rows A * cols B" by simp
  from dot_loops [OF len0 lenA T(2)] obtain d' where d':
    "foldE (\<lambda>row. foldE (\<lambda>col d. bindE (store d (row * cols B + col) 0)
             (foldE (\<lambda>i d. bindE (load d (row * cols B + col)) (\<lambda>acc. bindE (load (data A) (row * rows B + i)) (\<lambda>a.
                bindE (load (data T) (col * rows B + i)) (\<lambda>b. store d (row * cols B + col) (acc + a * b))))) [0..<rows B])) [0..<cols B]) [0..<rows A] (replicate (rows A * cols B) 0) = Inr d'"
    "length d' = rows A * cols B"
    "\<forall>r<rows A. \<forall>c<cols B. d' ! (r * cols B + c) = sum_k (\<lambda>i. data A ! (r * rows B + i) * data T ! (c * rows B + i)) (rows B)"
    by blast
  have eq: "dot A B = Inr \<lparr>data = d', rows = rows A, cols = cols B\<rparr>"
    using dim T(1) d'(1) by (simp add: dot_def Matrix_ctor_def)
  have "\<forall>i<rows A. \<forall>j<cols B. d' ! (i * cols B + j) = sum_k (\<lambda>k. entry A i k * entry B k j) (cols A)"
  proof (intro allI impI)
    fix i j assume ij: "i < rows A" "j < cols B"
    have "d' ! (i * cols B + j) = sum_k (\<lambda>k. data A ! (i * rows B + k) * data T ! (j * rows B + k)) (rows B)"
      using d'(3) ij by blast
    also have "\<dots> = sum_k (\<lambda>k. entry A i k * entry B k j) (rows B)"
      using T(3) ij(2) dim by (intro sum_k_cong) (simp add: entry_def)
    finally show "d' ! (i * cols B + j) = sum_k (\<lambda>k. entry A i k * entry B k j) (cols A)"
      using dim by simp
  qed
  with eq d'(2) show ?thesis by (simp add: wf_m_def entry_def)
qed

section \<open>The product on nested vectors\<close>














section \<open>Claims about the matrix\<close>

lemma big_matrices:
  "wf_m wide0" "wf_m tall0" "rows wide0 = 1" "cols wide0 = 2147483648"
  "rows tall0 = 2147483648" "cols tall0 = 1" "INT_MAX < int (rows tall0)"
  by (simp_all add: wide0_def tall0_def Matrix_ctor_def wf_m_def INT_MAX_def)






text \<open>
  Claim C10, as stated, asks of every matrix that the transpose has the dimensions
  swapped, and of every empty matrix that the transpose is the matrix itself. The two
  disagree on an empty matrix that is not \<open>0 \<times> 0\<close>; the code returns the matrix itself:
  the transpose of the \<open>0 \<times> 3\<close> matrix is \<open>0 \<times> 3\<close>, not \<open>3 \<times> 0\<close>. And the loops count
  with an \<^verbatim>\<open>int\<close>: on the column of \<open>2\<^sup>3\<^sup>1\<close> zeros the counter of the rows overflows and
  there is no transpose.
\<close>

theorem transpose_swaps_dims_counterexample:
  "transpose_m (Matrix_ctor 0 3 (0::int)) = Inr (Matrix_ctor 0 3 0)
   \<and> transpose_m (Matrix_ctor 0 3 (0::int)) \<noteq> Inr (Matrix_ctor 3 0 0)
   \<and> wf_m tall0 \<and> transpose_m tall0 = Inl Undefined"
proof -
  have "transpose_m tall0 = Inl Undefined"
    using transpose_m_overflow [of tall0] by (simp add: big_matrices INT_MAX_def)
  moreover have "transpose_m (Matrix_ctor 0 3 (0::int)) = Inr (Matrix_ctor 0 3 0)"
    by (simp add: transpose_m_def Matrix_ctor_def)
  moreover have "Matrix_ctor 0 3 (0::int) \<noteq> Matrix_ctor 3 0 0"
    by (simp add: Matrix_ctor_def)
  ultimately show ?thesis by (simp add: big_matrices)
qed

text \<open>
  Claim C10, amended. For every matrix \<open>A\<close> with at least one row and one column and at
  most \<^verbatim>\<open>INT_MAX\<close> rows and \<^verbatim>\<open>INT_MAX\<close> columns, \<open>transpose()\<close> returns a matrix with the
  dimensions of \<open>A\<close> swapped and \<open>result[j][i] = A[i][j]\<close> for all \<open>i\<close>, \<open>j\<close> in range; for
  every empty matrix (\<open>0\<close> rows or \<open>0\<close> columns) it returns the matrix itself unchanged.
\<close>

theorem transpose_nonempty_or_identity:
  assumes "wf_m A"
  shows "(0 < rows A \<and> 0 < cols A \<and> int (rows A) \<le> INT_MAX \<and> int (cols A) \<le> INT_MAX \<longrightarrow>
            (\<exists>T. transpose_m A = Inr T \<and> rows T = cols A \<and> cols T = rows A \<and> wf_m T
               \<and> (\<forall>i<rows A. \<forall>j<cols A. entry T j i = entry A i j)))
       \<and> (rows A = 0 \<or> cols A = 0 \<longrightarrow> transpose_m A = Inr A)"
proof (intro conjI impI)
  assume "0 < rows A \<and> 0 < cols A \<and> int (rows A) \<le> INT_MAX \<and> int (cols A) \<le> INT_MAX"
  then show "\<exists>T. transpose_m A = Inr T \<and> rows T = cols A \<and> cols T = rows A \<and> wf_m T
               \<and> (\<forall>i<rows A. \<forall>j<cols A. entry T j i = entry A i j)"
    using transpose_m_nonempty [OF assms] by blast
next
  assume "rows A = 0 \<or> cols A = 0"
  then show "transpose_m A = Inr A" by (simp add: transpose_m_def)
qed

theorem transpose_nonempty_or_identity_witness:
  "wf_m A0 \<and> 0 < rows A0 \<and> 0 < cols A0 \<and> int (rows A0) \<le> INT_MAX \<and> int (cols A0) \<le> INT_MAX
   \<and> (\<exists>T. transpose_m A0 = Inr T \<and> rows T = cols A0 \<and> cols T = rows A0 \<and> wf_m T
        \<and> (\<forall>i<rows A0. \<forall>j<cols A0. entry T j i = entry A0 i j))
   \<and> wf_m E0 \<and> rows E0 = 0 \<and> transpose_m E0 = Inr E0"
  using transpose_nonempty_or_identity [of A0] transpose_nonempty_or_identity [of E0]
  by (simp add: wf_m_def INT_MAX_def A0_def E0_def Matrix_ctor_def)



section \<open>The forward evaluation\<close>

lemma add_m_column:
  "column n a \<Longrightarrow> column n b \<Longrightarrow> \<exists>r. add_m a b = Inr r \<and> column n r"
  by (auto simp: add_m_def column_def shape_def wf_m_def)

lemma apply_m_column: "column n a \<Longrightarrow> column n (apply_m f a)"
  by (simp add: apply_m_def column_def shape_def wf_m_def)

lemma column_fits_int: "column c a \<Longrightarrow> int c \<le> INT_MAX \<Longrightarrow> fits_int a"
  by (simp add: column_def shape_def fits_int_def INT_MAX_def)

lemma dot_column:
  assumes "wf_m w" "shape w = (r, c)" "column c a" "int c \<le> INT_MAX"
  shows "\<exists>x. dot w a = Inr x \<and> column r x"
proof -
  have "wf_m a" "cols w = rows a" using assms by (simp_all add: column_def shape_def)
  from dot_correct [OF assms(1) this column_fits_int [OF assms(3,4)]] show ?thesis
    using assms by (auto simp: column_def shape_def)
qed

lemma layer_column:
  assumes "wf_m w" "shape w = (r, c)" "column r b" "column c a" "int c \<le> INT_MAX"
  shows "\<exists>z. bindE (dot w a) (\<lambda>wa. add_m wa b) = Inr z \<and> column r z"
proof -
  from dot_column [OF assms(1,2,4,5)] obtain x where x: "dot w a = Inr x" "column r x" by blast
  from add_m_column [OF x(2) assms(3)] x(1) show ?thesis by simp
qed

lemma classify_spec_column:
  assumes "ws \<noteq> []" "map shape Ws = zip (tl ws) (butlast ws)" "map shape Bs = map (\<lambda>r. (r, 1)) (tl ws)"
    "list_all wf_m Ws" "list_all wf_m Bs" "column (hd ws) x" "list_all (\<lambda>w. int w \<le> INT_MAX) ws"
  shows "\<exists>r. classify_spec sigmoid (zip Ws Bs) x = Inr r \<and> column (last ws) r"
  using assms
proof (induction ws arbitrary: Ws Bs x)
  case Nil
  then show ?case by simp
next
  case (Cons w0 ws)
  show ?case
  proof (cases ws)
    case Nil
    with Cons.prems show ?thesis by simp
  next
    case (Cons w1 ws')
    with Cons.prems obtain W Ws' B Bs' where W: "Ws = W # Ws'" "Bs = B # Bs'"
      by (cases Ws; cases Bs) auto
    have sh: "shape W = (w1, w0)" "shape B = (w1, 1)" "wf_m W" "wf_m B"
      "map shape Ws' = zip (tl ws) (butlast ws)" "map shape Bs' = map (\<lambda>r. (r, 1)) (tl ws)"
      "list_all wf_m Ws'" "list_all wf_m Bs'"
      using Cons.prems W Cons by auto
    have colB: "column w1 B" using sh by (simp add: column_def)
    have colx: "column w0 x" using Cons.prems by simp
    have bnd: "int w0 \<le> INT_MAX" "list_all (\<lambda>w. int w \<le> INT_MAX) ws" using Cons.prems by simp_all
    from layer_column [OF sh(3) sh(1) colB colx bnd(1)] obtain z where
      z: "bindE (dot W x) (\<lambda>wa. add_m wa B) = Inr z" "column w1 z" by blast
    have "column (hd ws) (apply_m sigmoid z)" using z(2) Cons by (simp add: apply_m_column)
    from Cons.IH [OF _ sh(5,6,7,8) this bnd(2)] obtain r where
      r: "classify_spec sigmoid (zip Ws' Bs') (apply_m sigmoid z) = Inr r" "column (last ws) r"
      using Cons by auto
    from z(1) obtain wa where wa: "dot W x = Inr wa" "add_m wa B = Inr z"
      by (cases "dot W x") auto
    show ?thesis using r wa W Cons by simp
  qed
qed

lemma classify_loop:
  assumes len: "length (biases net) = length (weights net)" and k: "k \<le> length (weights net)"
  shows "foldE (\<lambda>lyr (this, result).
                 bindE (load (weights this) lyr) (\<lambda>w.
                 bindE (dot w result) (\<lambda>wr.
                 bindE (load (biases this) lyr) (\<lambda>b.
                 bindE (add_m wr b) (\<lambda>z. Inr (this, apply_m sigmoid z))))))
          [k..<length (weights net)] (net, a)
       = bindE (classify_spec sigmoid (drop k (zip (weights net) (biases net))) a) (\<lambda>r. Inr (net, r))"
  using k
proof (induction "length (weights net) - k" arbitrary: k a)
  case 0
  then show ?case using len by simp
next
  case (Suc d)
  then have k: "k < length (weights net)" by simp
  have dr: "drop k (zip (weights net) (biases net)) = (weights net ! k, biases net ! k) # drop (Suc k) (zip (weights net) (biases net))"
    using k len by (simp add: Cons_nth_drop_Suc [symmetric])
  have IH: "\<And>a. foldE (\<lambda>lyr (this, result).
                 bindE (load (weights this) lyr) (\<lambda>w.
                 bindE (dot w result) (\<lambda>wr.
                 bindE (load (biases this) lyr) (\<lambda>b.
                 bindE (add_m wr b) (\<lambda>z. Inr (this, apply_m sigmoid z))))))
          [Suc k..<length (weights net)] (net, a)
       = bindE (classify_spec sigmoid (drop (Suc k) (zip (weights net) (biases net))) a) (\<lambda>r. Inr (net, r))"
    using Suc.hyps(1) [of "Suc k"] Suc.hyps(2) k by simp
  show ?case
    unfolding upt_conv_Cons [OF k] dr
    using k len
    by (cases "dot (weights net ! k) a"; cases "bindE (dot (weights net ! k) a) (\<lambda>wa. add_m wa (biases net ! k))")
       (auto simp: load_Inr IH)
qed

lemma classify_eq_spec:
  assumes "length (biases net) = length (weights net)"
  shows "classify sigmoid net x = bindE (classify_spec sigmoid (zip (weights net) (biases net)) x) (\<lambda>r. Inr (r, net))"
proof -
  have "classify sigmoid net x
     = bindE (bindE (classify_spec sigmoid (zip (weights net) (biases net)) x) (\<lambda>r. Inr (net, r))) (\<lambda>(this, result). Inr (result, this))"
    unfolding classify_def using classify_loop [OF assms, of 0 sigmoid x] by simp
  then show ?thesis
    by (cases "classify_spec sigmoid (zip (weights net) (biases net)) x") simp_all
qed

lemma foldE_invariant:
  assumes "foldE f xs s = Inr s'" and "Q s"
    and step: "\<And>x t t'. x \<in> set xs \<Longrightarrow> Q t \<Longrightarrow> f x t = Inr t' \<Longrightarrow> Q t'"
  shows "Q s'"
  using assms
proof (induction xs arbitrary: s)
  case Nil
  then show ?case by simp
next
  case (Cons x xs)
  from Cons.prems(1) obtain t where t: "f x s = Inr t" "foldE f xs t = Inr s'"
    by (cases "f x s") auto
  have "Q t" using Cons.prems(3) [of x s t] Cons.prems(2) t(1) by simp
  show ?case
  proof (rule Cons.IH [OF t(2) \<open>Q t\<close>])
    fix y u u' assume "y \<in> set xs" "Q u" "f y u = Inr u'"
    then show "Q u'" using Cons.prems(3) [of y u u'] by simp
  qed
qed

lemma net_inv_lengths:
  assumes "net_inv ws net"
  shows "length (weights net) = length ws - 1" and "length (biases net) = length ws - 1"
proof -
  have "length (map shape (weights net)) = length (zip (tl ws) (butlast ws))"
    using assms by (simp add: net_inv_def)
  then show "length (weights net) = length ws - 1" by simp
  have "length (map shape (biases net)) = length (map (\<lambda>r. (r, 1::nat)) (tl ws))"
    using assms by (simp add: net_inv_def)
  then show "length (biases net) = length ws - 1" by simp
qed

lemma classify_keeps_object:
  assumes "classify sigmoid net x = Inr (r, net')"
  shows "net' = net"
proof -
  let ?body = "\<lambda>lyr (this, result).
                 bindE (load (weights this) lyr) (\<lambda>w.
                 bindE (dot w result) (\<lambda>wr.
                 bindE (load (biases this) lyr) (\<lambda>b.
                 bindE (add_m wr b) (\<lambda>z. Inr (this, apply_m sigmoid z)))))"
  from assms obtain st where st: "foldE ?body [0..<length (weights net)] (net, x) = Inr st"
    and res: "(case st of (this, result) \<Rightarrow> Inr (result, this)) = (Inr (r, net') :: error + _)"
    unfolding classify_def
    by (cases "foldE ?body [0..<length (weights net)] (net, x)") auto
  have "fst st = net"
  proof (rule foldE_invariant [OF st, where Q = "\<lambda>t. fst t = net"])
    show "fst (net, x) = net" by simp
  next
    fix lyr t t' assume "fst t = net" "?body lyr t = Inr t'"
    then show "fst t' = net"
      by (auto simp: bindE_def split: prod.splits sum.splits)
  qed
  with res show ?thesis by (cases st) simp
qed


lemma classify_loop_params:
  assumes "weights net = weights net2" "biases net = biases net2"
  shows "map_sum id snd (foldE (\<lambda>lyr (this, result).
                 bindE (load (weights this) lyr) (\<lambda>w.
                 bindE (dot w result) (\<lambda>wr.
                 bindE (load (biases this) lyr) (\<lambda>b.
                 bindE (add_m wr b) (\<lambda>z. Inr (this, apply_m sigmoid z)))))) xs (net, a))
       = map_sum id snd (foldE (\<lambda>lyr (this, result).
                 bindE (load (weights this) lyr) (\<lambda>w.
                 bindE (dot w result) (\<lambda>wr.
                 bindE (load (biases this) lyr) (\<lambda>b.
                 bindE (add_m wr b) (\<lambda>z. Inr (this, apply_m sigmoid z)))))) xs (net2, a))"
proof (induction xs arbitrary: a)
  case Nil
  show ?case by simp
next
  case (Cons x xs)
  show ?case
    using assms Cons.IH
    by (auto simp: bindE_def split: sum.splits)
qed

lemma classify_params:
  assumes "weights net = weights net2" "biases net = biases net2"
  shows "map_sum id fst (classify sigmoid net inputs) = map_sum id fst (classify sigmoid net2 inputs)"
proof -
  let ?body = "\<lambda>lyr (this, result).
                 bindE (load (weights this) lyr) (\<lambda>w.
                 bindE (dot w result) (\<lambda>wr.
                 bindE (load (biases this) lyr) (\<lambda>b.
                 bindE (add_m wr b) (\<lambda>z. Inr (this, apply_m sigmoid z)))))"
  have "map_sum id snd (foldE ?body [0..<length (weights net)] (net, inputs))
      = map_sum id snd (foldE ?body [0..<length (weights net)] (net2, inputs))"
    using assms by (rule classify_loop_params)
  then show ?thesis
    unfolding classify_def assms(1) [symmetric]
    by (cases "foldE ?body [0..<length (weights net)] (net, inputs)";
        cases "foldE ?body [0..<length (weights net)] (net2, inputs)")
       (auto split: prod.splits)
qed


section \<open>Claims about the forward evaluation\<close>

text \<open>
  Claim C3. For every network with the layer widths \<open>ws = w\<^sub>0, ..., w\<^sub>L\<^sub>-\<^sub>1\<close> and every input
  that is a column matrix with \<open>w\<^sub>0\<close> rows, \<open>classify\<close> returns the result of iterating
  \<open>activation = sigmoid(weights[l].dot(activation) + biases[l])\<close> over the layer
  transitions in order, starting from the input, and the matrix returned is a column
  matrix with \<open>w\<^sub>L\<^sub>-\<^sub>1\<close> rows. \<open>net_inv ws net\<close> says that \<open>net\<close> is a network with these
  widths, which are \<^verbatim>\<open>int\<close> values.
\<close>

theorem classify_iterates_layers:
  assumes "net_inv ws net" and "column (hd ws) inputs"
  shows "\<exists>r. classify sigmoid net inputs = Inr (r, net)
     \<and> classify_spec sigmoid (zip (weights net) (biases net)) inputs = Inr r
     \<and> column (last ws) r"
proof -
  have len: "length (biases net) = length (weights net)"
    using net_inv_lengths [OF assms(1)] by simp
  from assms have "\<exists>r. classify_spec sigmoid (zip (weights net) (biases net)) inputs = Inr r
     \<and> column (last ws) r"
    by (intro classify_spec_column) (simp_all add: net_inv_def)
  then show ?thesis by (auto simp: classify_eq_spec [OF len])
qed

theorem classify_iterates_layers_witness:
  "net_inv [2, 2, 1] net1 \<and> column (hd [2, 2, 1]) x1
   \<and> (\<exists>r. classify act1 net1 x1 = Inr (r, net1)
        \<and> classify_spec act1 (zip (weights net1) (biases net1)) x1 = Inr r
        \<and> column (last [2, 2, 1]) r)"
proof -
  have a: "net_inv [2, 2, 1] net1"
    by (simp add: net_inv_def net1_def shape_def wf_m_def INT_MAX_def)
  have b: "column (hd [2, 2, 1]) x1"
    by (simp add: column_def x1_def shape_def wf_m_def)
  from classify_iterates_layers [OF a b, of act1] a b show ?thesis by simp
qed


text \<open>
  Claim C9. \<open>classify\<close> is deterministic and free of mutation: a call that returns
  leaves the network (layer sizes, weights and biases) as it was, a second call with
  the same input returns the identical output, and the output depends on the weights
  and biases of the network only.
\<close>

theorem classify_pure:
  "(classify sigmoid net inputs = Inr (r, net') \<longrightarrow>
      net' = net \<and> classify sigmoid net' inputs = Inr (r, net'))
   \<and> (weights net = weights net2 \<and> biases net = biases net2 \<longrightarrow>
        map_sum id fst (classify sigmoid net inputs) = map_sum id fst (classify sigmoid net2 inputs))"
proof (intro conjI impI)
  assume a: "classify sigmoid net inputs = Inr (r, net')"
  then show "net' = net" by (rule classify_keeps_object)
  with a show "classify sigmoid net' inputs = Inr (r, net')" by simp
next
  assume "weights net = weights net2 \<and> biases net = biases net2"
  then show "map_sum id fst (classify sigmoid net inputs) = map_sum id fst (classify sigmoid net2 inputs)"
    by (intro classify_params) simp_all
qed

theorem classify_pure_witness:
  "classify act1 net1 x1 = Inr (\<lparr>data = [89], rows = 1, cols = 1\<rparr>, net1)
   \<and> weights net1 = weights (net1\<lparr>layerSizes := E0\<rparr>)
   \<and> biases net1 = biases (net1\<lparr>layerSizes := E0\<rparr>)
   \<and> map_sum id fst (classify act1 net1 x1)
       = map_sum id fst (classify act1 (net1\<lparr>layerSizes := E0\<rparr>) x1)"
proof -
  have a: "classify act1 net1 x1 = Inr (\<lparr>data = [89], rows = 1, cols = 1\<rparr>, net1)"
    by code_simp
  from classify_pure [of act1 net1 x1 "\<lparr>data = [89], rows = 1, cols = 1\<rparr>" net1 "net1\<lparr>layerSizes := E0\<rparr>"] a
  show ?thesis by simp
qed

section \<open>The learning step\<close>

lemma back_vec_snoc: "back_vec (xs @ [x]) = Inr x"
  by (simp add: back_vec_def)

lemma bindE_assoc: "bindE (bindE m f) g = bindE m (\<lambda>x. bindE (f x) g)"
  by (cases m) simp_all

lemma forward_loop:
  assumes len: "length (biases net) = length (weights net)" and k: "k \<le> length (biases net)"
  shows "foldE (\<lambda>lyr (activation, activations, zs).
              bindE (load (weights net) lyr) (\<lambda>w.
              bindE (dot w activation) (\<lambda>wa.
              bindE (load (biases net) lyr) (\<lambda>b.
              bindE (add_m wa b) (\<lambda>z.
                let zs = zs @ [z] in
                bindE (back_vec zs) (\<lambda>zb.
                  let activation = apply_m sigmoid zb in
                  Inr (activation, activations @ [activation], zs)))))))
       [k..<length (biases net)] (a, acts, zs)
     = bindE (forward_spec sigmoid (drop k (zip (weights net) (biases net))) a)
         (\<lambda>fw. Inr (last (a # map snd fw), acts @ map snd fw, zs @ map fst fw))"
proof -
  define body where "body = (\<lambda>lyr (activation, activations, zs).
              bindE (load (weights net) lyr) (\<lambda>w.
              bindE (dot w activation) (\<lambda>wa.
              bindE (load (biases net) lyr) (\<lambda>b.
              bindE (add_m wa b) (\<lambda>z.
                let zs = zs @ [z] in
                bindE (back_vec zs) (\<lambda>zb.
                  let activation = apply_m sigmoid zb in
                  Inr (activation, activations @ [activation], zs)))))))"
  define n where "n = length (biases net)"
  define ls where "ls = zip (weights net) (biases net)"
  have step: "body k (a, acts, zs)
      = bindE (dot (weights net ! k) a) (\<lambda>wa. bindE (add_m wa (biases net ! k)) (\<lambda>z.
          Inr (apply_m sigmoid z, acts @ [apply_m sigmoid z], zs @ [z])))"
    if "k < n" for k a acts zs
    using that len by (simp add: body_def n_def load_Inr back_vec_snoc Let_def)
  have "foldE body [k..<n] (a, acts, zs)
     = bindE (forward_spec sigmoid (drop k ls) a)
         (\<lambda>fw. Inr (last (a # map snd fw), acts @ map snd fw, zs @ map fst fw))"
    if "k \<le> n" for k
    using that
  proof (induction "n - k" arbitrary: k a acts zs)
    case 0
    then show ?case using len by (simp add: n_def ls_def)
  next
    case (Suc d)
    then have k: "k < n" by simp
    have dr: "drop k ls = (weights net ! k, biases net ! k) # drop (Suc k) ls"
      using k len by (simp add: ls_def n_def Cons_nth_drop_Suc [symmetric])
    have IH: "foldE body [Suc k..<n] (a, acts, zs)
       = bindE (forward_spec sigmoid (drop (Suc k) ls) a)
           (\<lambda>fw. Inr (last (a # map snd fw), acts @ map snd fw, zs @ map fst fw))" for a acts zs
      using Suc.hyps(1) [of "Suc k"] Suc.hyps(2) k by simp
    show ?case
      unfolding upt_conv_Cons [OF k] dr foldE.simps step [OF k] forward_spec.simps
      by (cases "dot (weights net ! k) a"; cases "bindE (dot (weights net ! k) a) (\<lambda>wa. add_m wa (biases net ! k))";
          cases "forward_spec sigmoid (drop (Suc k) ls) (apply_m sigmoid (projr (bindE (dot (weights net ! k) a) (\<lambda>wa. add_m wa (biases net ! k)))))")
         (auto simp: IH bindE_def split: sum.splits)
  qed
  from this [OF k [folded n_def]] show ?thesis
    by (simp add: body_def n_def ls_def)
qed

lemma learn_forward_eq:
  assumes "length (biases net) = length (weights net)"
  shows "learn_forward sigmoid net x
     = bindE (forward_spec sigmoid (zip (weights net) (biases net)) x)
         (\<lambda>fw. Inr (last (x # map snd fw), x # map snd fw, map fst fw))"
  unfolding learn_forward_def using forward_loop [OF assms, of 0 sigmoid x "[x]" "[]"] by simp

lemma forward_spec_length:
  "forward_spec sigmoid ls a = Inr fw \<Longrightarrow> length fw = length ls"
proof (induction ls arbitrary: a fw)
  case Nil
  then show ?case by simp
next
  case (Cons l ls)
  obtain w b where l: "l = (w, b)" by (cases l)
  from Cons.prems obtain wa z rest where
    "dot w a = Inr wa" "add_m wa b = Inr z" "forward_spec sigmoid ls (apply_m sigmoid z) = Inr rest"
    "fw = (z, apply_m sigmoid z) # rest"
    unfolding l by (auto simp: bindE_def split: sum.splits)
  then show ?case using Cons.IH by simp
qed

lemma load_int_nat: "k < length v \<Longrightarrow> load_int v (int k) = Inr (v ! k)"
  by (simp add: load_int_def)

lemma backward_loop:
  fixes net :: "'a::{zero,plus,times} NeuralNet"
  assumes zs: "length zs = length (weights net)" and acts: "length acts = Suc (length (weights net))"
    and j: "Suc j \<le> length (weights net)"
  shows "foldE (\<lambda>lyr (delta, nabla_b, nabla_w).
              bindE (load_int zs (int (length (weights net)) - lyr)) (\<lambda>z.
                let sp = apply_m invSigmoid z in
                bindE (load_int (weights net) (int (length (weights net)) - lyr + 1)) (\<lambda>w.
                bindE (transpose_m w) (\<lambda>wt.
                bindE (dot wt delta) (\<lambda>wd.
                bindE (hadamard_m wd sp) (\<lambda>delta.
                  let nabla_b = nabla_b @ [delta] in
                  bindE (load_int acts (int (length (weights net)) - lyr)) (\<lambda>a.
                  bindE (transpose_m a) (\<lambda>at.
                  bindE (dot delta at) (\<lambda>nw.
                    Inr (delta, nabla_b, nabla_w @ [nw]))))))))))
       [int j + 2..int (length (weights net))] (delta, nb, nw)
     = bindE (backward_spec invSigmoid delta (weights net ! (length (weights net) - Suc j))
                (drop j (rev (butlast (zip (weights net) (zip zs (butlast acts)))))))
         (\<lambda>gs. Inr (last (delta # map snd gs), nb @ map snd gs, nw @ map fst gs))"
proof -
  define n where "n = length (weights net)"
  define W where "W = weights net"
  define R where "R = rev (butlast (zip W (zip zs (butlast acts))))"
  define body where "body = (\<lambda>lyr (delta, nabla_b, nabla_w).
              bindE (load_int zs (int n - lyr)) (\<lambda>z.
                let sp = apply_m invSigmoid z in
                bindE (load_int W (int n - lyr + 1)) (\<lambda>w.
                bindE (transpose_m w) (\<lambda>wt.
                bindE (dot wt delta) (\<lambda>wd.
                bindE (hadamard_m wd sp) (\<lambda>delta.
                  let nabla_b = nabla_b @ [delta] in
                  bindE (load_int acts (int n - lyr)) (\<lambda>a.
                  bindE (transpose_m a) (\<lambda>at.
                  bindE (dot delta at) (\<lambda>nw.
                    Inr (delta, nabla_b, nabla_w @ [nw]))))))))))"
  have lenW: "length W = n" by (simp add: W_def n_def)
  have lenzs: "length zs = n" using zs by (simp add: n_def)
  have lenacts: "length acts = Suc n" using acts by (simp add: n_def)
  have lenR: "length R = n - 1" by (simp add: R_def lenW lenzs lenacts)
  have Rnth: "R ! j = (W ! (n - 2 - j), zs ! (n - 2 - j), acts ! (n - 2 - j))" if "j + 2 \<le> n" for j
  proof -
    have a: "n - 2 - j < n - 1" using that by simp
    have "R ! j = butlast (zip W (zip zs (butlast acts))) ! (n - 1 - Suc j)"
      unfolding R_def using that by (subst rev_nth) (simp_all add: lenW lenzs lenacts)
    also have "n - 1 - Suc j = n - 2 - j" by simp
    also have "butlast (zip W (zip zs (butlast acts))) ! (n - 2 - j) = zip W (zip zs (butlast acts)) ! (n - 2 - j)"
      using a by (intro nth_butlast) (simp add: lenW lenzs lenacts)
    also have "\<dots> = (W ! (n - 2 - j), zs ! (n - 2 - j), acts ! (n - 2 - j))"
      using a by (simp add: lenW lenzs lenacts nth_butlast)
    finally show ?thesis .
  qed
  have step: "body (int j + 2) (delta, nb, nw)
      = bindE (transpose_m (W ! (n - Suc j))) (\<lambda>wt.
        bindE (dot wt delta) (\<lambda>wd.
        bindE (hadamard_m wd (apply_m invSigmoid (zs ! (n - 2 - j)))) (\<lambda>delta'.
        bindE (transpose_m (acts ! (n - 2 - j))) (\<lambda>at.
        bindE (dot delta' at) (\<lambda>gw.
          Inr (delta', nb @ [delta'], nw @ [gw]))))))"
    if "j + 2 \<le> n" for j delta nb nw
  proof -
    have i1: "int n - (int j + 2) = int (n - 2 - j)" using that by simp
    have i2: "int (n - 2 - j) + 1 = int (n - Suc j)" using that by simp
    have b1: "n - 2 - j < length zs" "n - Suc j < length W" "n - 2 - j < length acts"
      using that by (simp_all add: lenW lenzs lenacts)
    show ?thesis
      unfolding body_def prod.case i1 i2 load_int_nat [OF b1(1)] load_int_nat [OF b1(2)] load_int_nat [OF b1(3)]
      by (simp add: Let_def)
  qed
  have "foldE body [int j + 2..int n] (delta, nb, nw)
     = bindE (backward_spec invSigmoid delta (W ! (n - Suc j)) (drop j R))
         (\<lambda>gs. Inr (last (delta # map snd gs), nb @ map snd gs, nw @ map fst gs))"
    if "Suc j \<le> n" for j
    using that
  proof (induction "n - Suc j" arbitrary: j delta nb nw)
    case 0
    then have "j = n - 1" "n \<ge> 1" by simp_all
    then have "[int j + 2..int n] = []" "drop j R = []" by (simp_all add: lenR)
    then show ?case by simp
  next
    case (Suc d)
    then have j: "j + 2 \<le> n" by simp
    have up: "[int j + 2..int n] = (int j + 2) # [int (Suc j) + 2..int n]"
      using j by (subst upto_rec1) (simp_all add: add.commute add.left_commute)
    have dr: "drop j R = (W ! (n - 2 - j), zs ! (n - 2 - j), acts ! (n - 2 - j)) # drop (Suc j) R"
      using j Rnth [OF j] by (simp add: lenR Cons_nth_drop_Suc [symmetric])
    have e: "int (Suc j) + 2 = 3 + int j" by simp
    have IH: "foldE body [3 + int j..int n] (delta, nb, nw)
       = bindE (backward_spec invSigmoid delta (W ! (n - 2 - j)) (drop (Suc j) R))
           (\<lambda>gs. Inr (last (delta # map snd gs), nb @ map snd gs, nw @ map fst gs))" for delta nb nw
      using Suc.hyps(1) [of "Suc j" delta nb nw] Suc.hyps(2) j unfolding e by (simp add: numeral_2_eq_2)
    show ?case
      unfolding up e dr foldE.simps step [OF j] backward_spec.simps gradients_def
      by (auto simp: IH bindE_def split: sum.splits)
  qed
  from this [OF j [folded n_def]] show ?thesis
    by (simp add: body_def n_def W_def R_def)
qed

lemma store_int_nat: "k < length v \<Longrightarrow> store_int v (int k) x = Inr (v[k := x])"
  by (simp add: store_int_def)

lemma take_Suc_update: "k < length xs \<Longrightarrow> take (Suc k) (xs[k := v]) = take k xs @ [v]"
  by (simp add: take_Suc_conv_app_nth)

lemma update_loop:
  fixes this :: "'a::{minus,times} NeuralNet"
  assumes lens: "length (weights this) = n" "length (biases this) = n" "length nabla_w = n" "length nabla_b = n"
    and k: "k \<le> n"
  shows "foldE (\<lambda>lyr (revLyr, this).
                 bindE (load_int (weights this) lyr) (\<lambda>w.
                 bindE (load_int nabla_w revLyr) (\<lambda>nw.
                 bindE (subtract_m w (scale_m nw eta)) (\<lambda>w'.
                 bindE (store_int (weights this) lyr w') (\<lambda>weights'.
                   let this = this\<lparr>weights := weights'\<rparr> in
                   bindE (load_int (biases this) lyr) (\<lambda>b.
                   bindE (load_int nabla_b revLyr) (\<lambda>nb.
                   bindE (subtract_m b (scale_m nb eta)) (\<lambda>b'.
                   bindE (store_int (biases this) lyr b') (\<lambda>biases'.
                     Inr (revLyr - 1, this\<lparr>biases := biases'\<rparr>))))))))))
          [int k..int n - 1] (int n - 1 - int k, this)
     = bindE (update_spec eta (drop k (zip (zip (weights this) (biases this)) (rev (zip nabla_w nabla_b)))))
         (\<lambda>new. Inr (- 1, this\<lparr>weights := take k (weights this) @ map fst new,
                                 biases := take k (biases this) @ map snd new\<rparr>))"
proof -
  define body where "body = (\<lambda>lyr (revLyr, this :: 'a NeuralNet).
                 bindE (load_int (weights this) lyr) (\<lambda>w.
                 bindE (load_int nabla_w revLyr) (\<lambda>nw.
                 bindE (subtract_m w (scale_m nw eta)) (\<lambda>w'.
                 bindE (store_int (weights this) lyr w') (\<lambda>weights'.
                   let this = this\<lparr>weights := weights'\<rparr> in
                   bindE (load_int (biases this) lyr) (\<lambda>b.
                   bindE (load_int nabla_b revLyr) (\<lambda>nb.
                   bindE (subtract_m b (scale_m nb eta)) (\<lambda>b'.
                   bindE (store_int (biases this) lyr b') (\<lambda>biases'.
                     Inr (revLyr - 1, this\<lparr>biases := biases'\<rparr>))))))))))"
  define G where "G = rev (zip nabla_w nabla_b)"
  have lenG: "length G = n" using lens by (simp add: G_def)
  have Gnth: "G ! k = (nabla_w ! (n - Suc k), nabla_b ! (n - Suc k))" if "k < n" for k
    unfolding G_def using that lens by (subst rev_nth) simp_all
  have step: "body (int k) (int n - 1 - int k, this)
      = bindE (subtract_m (weights this ! k) (scale_m (nabla_w ! (n - Suc k)) eta)) (\<lambda>w'.
        bindE (subtract_m (biases this ! k) (scale_m (nabla_b ! (n - Suc k)) eta)) (\<lambda>b'.
          Inr (int n - 1 - int (Suc k), this\<lparr>weights := (weights this)[k := w'], biases := (biases this)[k := b']\<rparr>)))"
    if "k < n" "length (weights this) = n" "length (biases this) = n" for k and this :: "'a NeuralNet"
  proof -
    have i: "int n - 1 - int k = int (n - Suc k)" using that by simp
    have b: "k < length (weights this)" "k < length (biases this)" "n - Suc k < length nabla_w" "n - Suc k < length nabla_b"
      using that lens by simp_all
    show ?thesis
      unfolding body_def prod.case i load_int_nat [OF b(1)] load_int_nat [OF b(3)] load_int_nat [OF b(4)]
        store_int_nat [OF b(1)]
      using that by (simp add: Let_def load_int_nat store_int_nat bindE_def split: sum.splits)
  qed
  have "foldE body [int k..int n - 1] (int n - 1 - int k, this)
     = bindE (update_spec eta (drop k (zip (zip (weights this) (biases this)) G)))
         (\<lambda>new. Inr (- 1, this\<lparr>weights := take k (weights this) @ map fst new,
                                 biases := take k (biases this) @ map snd new\<rparr>))"
    if "k \<le> n" "length (weights this) = n" "length (biases this) = n" for k and this :: "'a NeuralNet"
    using that
  proof (induction "n - k" arbitrary: k this)
    case 0
    then have "k = n" by simp
    then have "[int k..int n - 1] = []" "drop k (zip (zip (weights this) (biases this)) G) = []"
      using 0 lenG by simp_all
    then show ?case using 0 \<open>k = n\<close> by simp
  next
    case (Suc d)
    then have k: "k < n" by simp
    note lw = Suc.prems(2) and lb = Suc.prems(3)
    have up: "[int k..int n - 1] = int k # [int (Suc k)..int n - 1]"
      using k by (subst upto_rec1) (simp_all add: add.commute)
    have dr: "drop k (zip (zip (weights this) (biases this)) G)
        = ((weights this ! k, biases this ! k), (nabla_w ! (n - Suc k), nabla_b ! (n - Suc k)))
          # drop (Suc k) (zip (zip (weights this) (biases this)) G)"
      using k lw lb lenG Gnth [OF k] by (simp add: Cons_nth_drop_Suc [symmetric])
    have IH: "foldE body [int (Suc k)..int n - 1] (int n - 1 - int (Suc k), this\<lparr>weights := (weights this)[k := w'], biases := (biases this)[k := b']\<rparr>)
       = bindE (update_spec eta (drop (Suc k) (zip (zip (weights this) (biases this)) G)))
           (\<lambda>new. Inr (- 1, this\<lparr>weights := take k (weights this) @ w' # map fst new,
                                   biases := take k (biases this) @ b' # map snd new\<rparr>))" for w' b'
      using Suc.hyps(1) [of "Suc k" "this\<lparr>weights := (weights this)[k := w'], biases := (biases this)[k := b']\<rparr>"]
        Suc.hyps(2) k lw lb
      by (simp add: drop_zip take_Suc_update)
    show ?case
      unfolding up dr foldE.simps step [OF k lw lb] update_spec.simps
      by (auto simp: IH bindE_def simp del: of_nat_Suc split: sum.splits)
  qed
  from this [OF k lens(1,2)] show ?thesis
    by (simp add: body_def G_def)
qed

lemma learn_update_eq:
  fixes this :: "'a::{minus,times} NeuralNet"
  assumes "length (weights this) = n" "length (biases this) = n" "length G = n"
  shows "learn_update eta (int n) (map snd G) (map fst G) this
     = bindE (update_spec eta (zip (zip (weights this) (biases this)) (rev G)))
         (\<lambda>new. Inr (this\<lparr>weights := map fst new, biases := map snd new\<rparr>))"
proof -
  have l: "length (map fst G) = n" "length (map snd G) = n" using assms(3) by simp_all
  have z: "zip (map fst G) (map snd G) = G" by (simp add: zip_map_fst_snd)
  show ?thesis
    unfolding learn_update_def
    using update_loop [OF assms(1,2) l, of 0 eta]
    by (cases "update_spec eta (zip (zip (weights this) (biases this)) (rev G))") (simp_all add: z)
qed

lemma backward_spec_length:
  "backward_spec invSigmoid delta w tr = Inr gs \<Longrightarrow> length gs = length tr"
proof (induction tr arbitrary: delta w gs)
  case Nil
  then show ?case by simp
next
  case (Cons t tr)
  obtain w' z a where t: "t = (w', z, a)" by (cases t)
  from Cons.prems obtain delta' g rest where
    "backward_spec invSigmoid delta' w' tr = Inr rest" "gs = g # rest"
    unfolding t by (auto simp: bindE_def split: sum.splits)
  then show ?case using Cons.IH by simp
qed

lemma at_int_nat: "k < length v \<Longrightarrow> at_int v (int k) = Inr (v ! k)"
  by (simp add: at_int_def)

lemma learn_eq_spec:
  fixes net :: "'a::{zero,plus,minus,times} NeuralNet"
  assumes len: "length (biases net) = length (weights net)" and ne: "weights net \<noteq> []"
    and ls: "0 < rows (layerSizes net)" "cols (layerSizes net) = Suc (length (weights net))"
  shows "learn sigmoid invSigmoid net inputs expected eta
       = learn_spec sigmoid invSigmoid net inputs expected eta"
proof (cases "forward_spec sigmoid (zip (weights net) (biases net)) inputs")
  case (Inl e)
  then show ?thesis
    by (simp add: learn_def learn_spec_def learn_forward_eq [OF len])
next
  case (Inr fw)
  define n where "n = length (weights net)"
  define zs where "zs = map fst fw"
  define acts where "acts = inputs # map snd fw"
  have lfw: "length fw = n" using forward_spec_length [OF Inr] len by (simp add: n_def)
  have n: "0 < n" using ne by (simp add: n_def)
  have fwne: "fw \<noteq> []" using lfw n by auto
  have lzs: "length zs = n" and lacts: "length acts = Suc n" by (simp_all add: zs_def acts_def lfw)
  have fwd: "learn_forward sigmoid net inputs = Inr (last acts, acts, zs)"
    by (simp add: learn_forward_eq [OF len] Inr acts_def zs_def)
  have b1: "back_vec acts = Inr (last acts)" by (simp add: back_vec_def acts_def)
  have b2: "back_vec zs = Inr (last zs)" using fwne by (simp add: back_vec_def zs_def)
  have rs: "row_size (layerSizes net) 0 = Inr (Suc n)" using ls by (simp add: row_size_def n_def)
  have i: "int (Suc n) - 1 = int n" "int n - 1 = int (n - 1)" using n by simp_all
  have at: "at_int acts (int n - 1) = Inr (last (butlast acts))"
    unfolding i(2)
  proof -
    have "butlast acts \<noteq> []" using lacts n by (cases acts rule: rev_cases) auto
    then have "last (butlast acts) = acts ! (n - 1)"
      using lacts n by (simp add: last_conv_nth nth_butlast)
    moreover have "at_int acts (int (n - 1)) = Inr (acts ! (n - 1))"
      by (rule at_int_nat) (use lacts n in simp)
    ultimately show "at_int acts (int (n - 1)) = Inr (last (butlast acts))" by (simp only:)
  qed
  have lastW: "weights net ! (n - Suc 0) = last (weights net)"
    using ne by (simp add: last_conv_nth n_def)
  have bw: "learn_backward invSigmoid net (int n) acts zs (delta, [delta], [gw])
      = bindE (backward_spec invSigmoid delta (last (weights net))
                 (rev (butlast (zip (weights net) (zip zs (butlast acts))))))
          (\<lambda>gs. Inr (last (delta # map snd gs), map snd ((gw, delta) # gs), map fst ((gw, delta) # gs)))"
    for delta gw
  proof -
    have a: "length zs = length (weights net)" "length acts = Suc (length (weights net))"
      "Suc 0 \<le> length (weights net)"
      using lzs lacts n unfolding n_def by (simp, simp, arith)
    show ?thesis
      unfolding learn_backward_def
      using backward_loop [OF a, of invSigmoid delta "[delta]" "[gw]"] lastW
      by (simp add: n_def)
  qed
  have upd: "learn_update eta (int n) (delta # map snd gs) (gw # map fst gs) net
      = bindE (update_spec eta (zip (zip (weights net) (biases net)) (rev gs @ [(gw, delta)])))
          (\<lambda>new. Inr (net\<lparr>weights := map fst new, biases := map snd new\<rparr>))"
    if "length gs = n - 1" for gw delta gs
  proof -
    have "length (weights net) = n" "length (biases net) = n" "length ((gw, delta) # gs) = n"
      using that n len by (simp_all add: n_def)
    from learn_update_eq [OF this, of eta] show ?thesis by simp
  qed
  have lR: "length (rev (butlast (zip (weights net) (zip zs (butlast acts))))) = n - 1"
    using lzs lacts by (simp add: n_def)
  have bwlen: "length gs = n - 1"
    if "backward_spec invSigmoid delta (last (weights net))
                 (rev (butlast (zip (weights net) (zip zs (butlast acts))))) = Inr gs" for delta gs
    using backward_spec_length [OF that] lR by simp
  have L: "learn sigmoid invSigmoid net inputs expected eta
      = bindE (output_delta invSigmoid (last acts) expected (last zs)) (\<lambda>delta.
        bindE (gradients delta (last (butlast acts))) (\<lambda>g.
        bindE (backward_spec invSigmoid delta (last (weights net))
                 (rev (butlast (zip (weights net) (zip zs (butlast acts)))))) (\<lambda>gs.
        bindE (update_spec eta (zip (zip (weights net) (biases net)) (rev (g # gs)))) (\<lambda>new.
          Inr (net\<lparr>weights := map fst new, biases := map snd new\<rparr>)))))"
    unfolding learn_def fwd
    by (auto simp: b1 b2 rs i(1) at bw upd bwlen output_delta_def gradients_def bindE_def Let_def
             split: sum.splits)
  have S: "learn_spec sigmoid invSigmoid net inputs expected eta
      = bindE (output_delta invSigmoid (last acts) expected (last zs)) (\<lambda>delta.
        bindE (gradients delta (last (butlast acts))) (\<lambda>g.
        bindE (backward_spec invSigmoid delta (last (weights net))
                 (rev (butlast (zip (weights net) (zip zs (butlast acts)))))) (\<lambda>gs.
        bindE (update_spec eta (zip (zip (weights net) (biases net)) (rev (g # gs)))) (\<lambda>new.
          Inr (net\<lparr>weights := map fst new, biases := map snd new\<rparr>)))))"
    unfolding learn_spec_def Let_def Inr acts_def zs_def using fwne by simp
  show ?thesis unfolding L S ..
qed

lemma store_length: "store d i x = Inr d' \<Longrightarrow> length d' = length d"
  by (auto simp: store_def split: if_splits)

lemma bindE_Inr_iff: "bindE m f = Inr y \<longleftrightarrow> (\<exists>x. m = Inr x \<and> f x = Inr y)"
  by (cases m) simp_all

lemma dot_Inr_wf:
  assumes "dot A B = Inr R"
  shows "wf_m R \<and> rows R = rows A \<and> cols R = cols B"
proof -
  define inner where "inner row col = (\<lambda>i d.
                         bindE (load d (row * cols B + col)) (\<lambda>acc.
                         bindE (load (data A) (row * cols A + i)) (\<lambda>a.
                         bindE (load (data (projr (transpose_m B))) (col * cols A + i)) (\<lambda>b.
                           store d (row * cols B + col) (acc + a * b)))))" for row col
  from assms have dim: "cols A = rows B" by (auto simp: dot_def split: if_splits)
  from assms obtain T d where T: "transpose_m B = Inr T"
    and d: "foldE (\<lambda>row. foldE (\<lambda>col d.
                    bindE (store d (row * cols B + col) 0) (foldE (inner row col) [0..<cols A]))
                  [0..<cols B]) [0..<rows A] (replicate (rows A * cols B) 0) = Inr d"
    and R: "R = \<lparr>data = d, rows = rows A, cols = cols B\<rparr>"
    unfolding dot_def inner_def using dim
    by (auto simp: Let_def Matrix_ctor_def bindE_Inr_iff)
  have cell: "length t' = length t"
    if "bindE (store t (row * cols B + col) 0) (foldE (inner row col) [0..<cols A]) = Inr t'"
    for row col and t t' :: "'a list"
  proof -
    from that obtain t0 where t0: "store t (row * cols B + col) 0 = Inr t0"
      "foldE (inner row col) [0..<cols A] t0 = Inr t'"
      by (auto simp: bindE_Inr_iff)
    have "length t' = length t0"
      by (rule foldE_invariant [OF t0(2), where Q = "\<lambda>u. length u = length t0"])
         (auto simp: inner_def bindE_Inr_iff dest: store_length)
    with store_length [OF t0(1)] show ?thesis by simp
  qed
  have row: "length t' = length t"
    if "foldE (\<lambda>col d. bindE (store d (row * cols B + col) 0) (foldE (inner row col) [0..<cols A]))
          [0..<cols B] t = Inr t'"
    for row and t t' :: "'a list"
    by (rule foldE_invariant [OF that, where Q = "\<lambda>u. length u = length t"]) (auto dest: cell)
  have "length d = length (replicate (rows A * cols B) (0::'a))"
    by (rule foldE_invariant [OF d, where Q = "\<lambda>u. length u = length (replicate (rows A * cols B) (0::'a))"])
       (auto dest: row)
  then show ?thesis by (simp add: R wf_m_def)
qed

lemma add_m_Inr:
  assumes "add_m a b = Inr r"
  shows "shape r = shape a" and "shape b = shape a" and "wf_m a \<Longrightarrow> wf_m b \<Longrightarrow> wf_m r"
  using assms by (auto simp: add_m_def shape_def wf_m_def split: if_splits)

lemma subtract_m_Inr:
  assumes "subtract_m a b = Inr r"
  shows "shape r = shape a" and "shape b = shape a" and "wf_m a \<Longrightarrow> wf_m b \<Longrightarrow> wf_m r"
  using assms by (auto simp: subtract_m_def shape_def wf_m_def split: if_splits)

lemma hadamard_m_Inr:
  assumes "hadamard_m a b = Inr r"
  shows "shape r = shape a" and "shape b = shape a" and "wf_m a \<Longrightarrow> wf_m b \<Longrightarrow> wf_m r"
  using assms by (auto simp: hadamard_m_def shape_def wf_m_def split: if_splits)

lemma apply_m_shape [simp]: "shape (apply_m f a) = shape a"
  by (simp add: apply_m_def shape_def)

lemma apply_m_wf [simp]: "wf_m (apply_m f a) = wf_m a"
  by (simp add: apply_m_def wf_m_def)

lemma scale_m_shape [simp]: "shape (scale_m a x) = shape a"
  by (simp add: scale_m_def shape_def)

lemma scale_m_wf [simp]: "wf_m (scale_m a x) = wf_m a"
  by (simp add: scale_m_def wf_m_def)

lemma dot_Inr_shape: "dot A B = Inr R \<Longrightarrow> shape R = (rows A, cols B)"
  using dot_Inr_wf [of A B R] by (simp add: shape_def)

lemma forward_spec_wf:
  assumes "forward_spec sigmoid ls a = Inr fw" and "list_all (\<lambda>(w, b). wf_m b) ls"
  shows "list_all (\<lambda>(z, a'). wf_m z \<and> wf_m a') fw"
  using assms
proof (induction ls arbitrary: a fw)
  case Nil
  then show ?case by simp
next
  case (Cons l ls)
  obtain w b where l: "l = (w, b)" by (cases l)
  from Cons.prems(1) obtain wa z rest where s:
    "dot w a = Inr wa" "add_m wa b = Inr z" "forward_spec sigmoid ls (apply_m sigmoid z) = Inr rest"
    "fw = (z, apply_m sigmoid z) # rest"
    unfolding l by (auto simp: bindE_Inr_iff)
  have "wf_m wa" using dot_Inr_wf [OF s(1)] by simp
  then have "wf_m z" using add_m_Inr(3) [OF s(2)] Cons.prems(2) l by simp
  moreover have "list_all (\<lambda>(z, a'). wf_m z \<and> wf_m a') rest"
    using Cons.IH [OF s(3)] Cons.prems(2) by simp
  ultimately show ?case by (simp add: s(4))
qed

lemma gradients_Inr:
  assumes "gradients delta a = Inr g"
  shows "wf_m (fst g)" and "snd g = delta"
  using assms by (auto simp: gradients_def bindE_Inr_iff dest: dot_Inr_wf)

lemma backward_spec_wf:
  assumes "backward_spec invSigmoid delta w tr = Inr gs" and "list_all (\<lambda>(w, z, a). wf_m z) tr"
  shows "list_all (\<lambda>(gw, gb). wf_m gw \<and> wf_m gb) gs"
  using assms
proof (induction tr arbitrary: delta w gs)
  case Nil
  then show ?case by simp
next
  case (Cons t tr)
  obtain w' z a where t: "t = (w', z, a)" by (cases t)
  from Cons.prems(1) obtain wt wd delta' g rest where s:
    "dot wt delta = Inr wd" "hadamard_m wd (apply_m invSigmoid z) = Inr delta'"
    "gradients delta' a = Inr g" "backward_spec invSigmoid delta' w' tr = Inr rest" "gs = g # rest"
    unfolding t by (auto simp: bindE_Inr_iff)
  have "wf_m wd" using dot_Inr_wf [OF s(1)] by simp
  then have "wf_m delta'" using hadamard_m_Inr(3) [OF s(2)] Cons.prems(2) t by simp
  then have "wf_m (fst g) \<and> wf_m (snd g)" using gradients_Inr [OF s(3)] by simp
  moreover have "list_all (\<lambda>(gw, gb). wf_m gw \<and> wf_m gb) rest"
    using Cons.IH [OF s(4)] Cons.prems(2) by simp
  ultimately show ?case by (simp add: s(5) split_def)
qed

lemma update_spec_shapes:
  assumes "update_spec eta xs = Inr new"
    and "list_all (\<lambda>((w, b), (gw, gb)). wf_m w \<and> wf_m b \<and> wf_m gw \<and> wf_m gb) xs"
  shows "map shape (map fst new) = map (shape \<circ> fst \<circ> fst) xs
       \<and> map shape (map snd new) = map (shape \<circ> snd \<circ> fst) xs
       \<and> list_all wf_m (map fst new) \<and> list_all wf_m (map snd new)"
  using assms
proof (induction xs arbitrary: new)
  case Nil
  then show ?case by simp
next
  case (Cons x xs)
  obtain w b gw gb where x: "x = ((w, b), (gw, gb))" by (cases x) auto
  from Cons.prems(1) obtain w' b' rest where s:
    "subtract_m w (scale_m gw eta) = Inr w'" "subtract_m b (scale_m gb eta) = Inr b'"
    "update_spec eta xs = Inr rest" "new = (w', b') # rest"
    unfolding x by (auto simp: bindE_Inr_iff)
  have "shape w' = shape w" "wf_m w'" "shape b' = shape b" "wf_m b'"
    using subtract_m_Inr [OF s(1)] subtract_m_Inr [OF s(2)] Cons.prems(2) x by simp_all
  then show ?case using Cons.IH [OF s(3)] Cons.prems(2) by (simp add: s(4) x)
qed

lemma foldE_upt_inv_from:
  assumes init: "P a s"
    and step: "\<And>i t. a \<le> i \<Longrightarrow> i < b \<Longrightarrow> P i t \<Longrightarrow> \<exists>t'. f i t = Inr t' \<and> P (Suc i) t'"
    and ab: "a \<le> b"
  shows "\<exists>t. foldE f [a..<b] s = Inr t \<and> P b t"
  using ab step
proof (induction b)
  case 0
  then show ?case using init by simp
next
  case (Suc b)
  show ?case
  proof (cases "a = Suc b")
    case True
    then show ?thesis using init by simp
  next
    case False
    with Suc.prems(1) have ab: "a \<le> b" by simp
    from Suc.IH [OF ab] Suc.prems(2) obtain t where t: "foldE f [a..<b] s = Inr t" "P b t"
      by (metis less_Suc_eq)
    from Suc.prems(2) [of b t] ab t obtain t' where "f b t = Inr t'" "P (Suc b) t'"
      by auto
    with t ab show ?thesis by (simp add: foldE_append)
  qed
qed

lemma size_t_of_int_nat: "0 \<le> w \<Longrightarrow> w \<le> INT_MAX \<Longrightarrow> size_t_of_int w = nat w"
  by (simp add: size_t_of_int_def INT_MAX_def)

lemma init_loop:
  assumes rng: "\<forall>w\<in>set layers. 0 \<le> w \<and> w \<le> INT_MAX" and ne: "layers \<noteq> []"
  shows "initBiasAndWeightMatrices layers ([], [])
       = Inr (map (\<lambda>l. Matrix_ctor (nat (layers ! l)) 1 0) [1..<length layers],
              map (\<lambda>l. Matrix_ctor (nat (layers ! l)) (nat (layers ! (l - 1))) 0) [1..<length layers])"
proof -
  define P where "P k st \<longleftrightarrow> st =
      (map (\<lambda>l. Matrix_ctor (nat (layers ! l)) 1 (0::'a)) [1..<k],
       map (\<lambda>l. Matrix_ctor (nat (layers ! l)) (nat (layers ! (l - 1))) (0::'a)) [1..<k])" for k st
  have "\<exists>t. initBiasAndWeightMatrices layers ([], []) = Inr t \<and> P (length layers) t"
    unfolding initBiasAndWeightMatrices_def
  proof (rule foldE_upt_inv_from)
    show "P 1 ([], [])" by (simp add: P_def)
  next
    show "1 \<le> length layers" using ne by (cases layers) simp_all
  next
    fix i t assume i: "1 \<le> i" "i < length layers" and Pt: "P i t"
    have lt: "i - Suc 0 < length layers" using i by simp
    have r: "size_t_of_int (layers ! i) = nat (layers ! i)"
      "size_t_of_int (layers ! (i - Suc 0)) = nat (layers ! (i - Suc 0))"
      using rng i lt by (simp_all add: size_t_of_int_nat)
    show "\<exists>t'. (case t of (bs, wts) \<Rightarrow>
              bindE (at_vec layers i) (\<lambda>r.
              bindE (at_vec layers (i - 1)) (\<lambda>c.
                Inr (bs @ [Matrix_ctor (size_t_of_int r) 1 0],
                     wts @ [Matrix_ctor (size_t_of_int r) (size_t_of_int c) 0])))) = Inr t'
            \<and> P (Suc i) t'"
      using i lt Pt by (simp add: P_def at_vec_def r)
  qed
  then show ?thesis by (simp add: P_def)
qed

lemma shapes_of_ctor:
  assumes "ws \<noteq> []"
  shows "map (\<lambda>l. (ws ! l, ws ! (l - 1))) [1..<length ws] = zip (tl ws) (butlast ws)"
    and "map (\<lambda>l. (ws ! l, 1::nat)) [1..<length ws] = map (\<lambda>r. (r, 1)) (tl ws)"
proof -
  show "map (\<lambda>l. (ws ! l, ws ! (l - 1))) [1..<length ws] = zip (tl ws) (butlast ws)"
    using assms by (intro nth_equalityI) (auto simp: nth_tl nth_butlast)
  show "map (\<lambda>l. (ws ! l, 1::nat)) [1..<length ws] = map (\<lambda>r. (r, 1)) (tl ws)"
    using assms by (intro nth_equalityI) (auto simp: nth_tl)
qed

lemma ctor_establishes:
  assumes len: "2 \<le> length layers" and rng: "\<forall>w\<in>set layers. 0 \<le> w \<and> w \<le> INT_MAX"
  shows "\<exists>net. NeuralNet_ctor val_of_int layers = Inr net
     \<and> net_inv (map nat layers) net
     \<and> data (layerSizes net) = map val_of_int layers
     \<and> (\<forall>m\<in>set (weights net) \<union> set (biases net). \<forall>v\<in>set (data m). v = 0)"
proof -
  have ne: "layers \<noteq> []" using len by auto
  define ws where "ws = map nat layers"
  have wsne: "ws \<noteq> []" and lws: "length ws = length layers" using ne by (simp_all add: ws_def)
  define net :: "'a NeuralNet" where "net = \<lparr>layerSizes = \<lparr>data = map val_of_int layers, rows = 1, cols = length layers\<rparr>,
     biases = map (\<lambda>l. Matrix_ctor (nat (layers ! l)) 1 0) [1..<length layers],
     weights = map (\<lambda>l. Matrix_ctor (nat (layers ! l)) (nat (layers ! (l - 1))) 0) [1..<length layers]\<rparr>"
  have c: "NeuralNet_ctor val_of_int layers = Inr net"
    by (simp add: NeuralNet_ctor_def init_loop [OF rng ne] net_def Matrix_ctor_def)
  have sw: "map shape (weights net) = zip (tl ws) (butlast ws)"
  proof -
    have "map shape (weights net) = map (\<lambda>l. (ws ! l, ws ! (l - 1))) [1..<length ws]"
      by (auto simp: net_def shape_def Matrix_ctor_def ws_def)
    then show ?thesis using shapes_of_ctor(1) [OF wsne] by simp
  qed
  have sb: "map shape (biases net) = map (\<lambda>r. (r, 1)) (tl ws)"
  proof -
    have "map shape (biases net) = map (\<lambda>l. (ws ! l, 1::nat)) [1..<length ws]"
      by (simp add: net_def shape_def Matrix_ctor_def ws_def)
    then show ?thesis using shapes_of_ctor(2) [OF wsne] by simp
  qed
  have bnd: "list_all (\<lambda>w. int w \<le> INT_MAX) ws"
    using rng by (auto simp: ws_def list_all_iff)
  have "net_inv ws net"
    unfolding net_inv_def using wsne sw sb bnd lws
    by (simp add: net_def shape_def list_all_iff wf_m_def Matrix_ctor_def)
  moreover have "\<forall>m\<in>set (weights net) \<union> set (biases net). \<forall>v\<in>set (data m). v = 0"
    by (auto simp: net_def Matrix_ctor_def)
  moreover have "data (layerSizes net) = map val_of_int layers" by (simp add: net_def)
  ultimately show ?thesis using c unfolding ws_def by blast
qed

lemma learn_no_layers:
  assumes "weights net = []" "biases net = []"
  shows "learn sigmoid invSigmoid net inputs expected eta \<noteq> Inr net'"
  using assms
  by (auto simp: learn_def learn_forward_def back_vec_def bindE_def split: sum.splits)

lemma net_inv_learn_pre:
  assumes "net_inv ws net" "weights net \<noteq> []"
  shows "length (biases net) = length (weights net)" "0 < rows (layerSizes net)"
    "cols (layerSizes net) = Suc (length (weights net))"
proof -
  have l: "length (weights net) = length ws - 1" "length (biases net) = length ws - 1"
    using net_inv_lengths [OF assms(1)] by simp_all
  show "length (biases net) = length (weights net)" using l by simp
  show "0 < rows (layerSizes net)" using assms(1) by (simp add: net_inv_def shape_def)
  have "ws \<noteq> []" using assms(1) by (simp add: net_inv_def)
  then show "cols (layerSizes net) = Suc (length (weights net))"
    using assms(1) l by (cases ws) (simp_all add: net_inv_def shape_def)
qed

lemma learn_spec_preserves_inv:
  fixes net :: "'a::{zero,plus,minus,times} NeuralNet"
  assumes inv: "net_inv ws net" and e: "wf_m expected"
    and l: "learn_spec sigmoid invSigmoid net inputs expected eta = Inr net'"
  shows "net_inv ws net'"
proof -
  define W where "W = weights net"
  define B where "B = biases net"
  have len: "length B = length W" using net_inv_lengths [OF inv] by (simp add: W_def B_def)
  have wfW: "list_all wf_m W" and wfB: "list_all wf_m B" using inv by (simp_all add: net_inv_def W_def B_def)
  from l obtain fw where fw: "forward_spec sigmoid (zip W B) inputs = Inr fw" and fwne: "fw \<noteq> []"
    unfolding learn_spec_def W_def B_def by (auto simp: Let_def bindE_Inr_iff split: if_splits)
  define zs where "zs = map fst fw"
  define acts where "acts = inputs # map snd fw"
  from l fw fwne obtain delta g gs new where
    d: "output_delta invSigmoid (last acts) expected (last zs) = Inr delta"
    and g: "gradients delta (last (butlast acts)) = Inr g"
    and gs: "backward_spec invSigmoid delta (last W) (rev (butlast (zip W (zip zs (butlast acts))))) = Inr gs"
    and new: "update_spec eta (zip (zip W B) (rev (g # gs))) = Inr new"
    and net': "net' = net\<lparr>weights := map fst new, biases := map snd new\<rparr>"
    unfolding learn_spec_def W_def B_def zs_def acts_def
    by (auto simp: Let_def bindE_Inr_iff)
  have lfw: "length fw = length W" using forward_spec_length [OF fw] len by simp
  have "list_all (\<lambda>(w, b). wf_m b) (zip W B)"
    using wfB by (auto simp: list_all_iff dest: set_zip_rightD)
  from forward_spec_wf [OF fw this] have wffw: "list_all (\<lambda>(z, a'). wf_m z \<and> wf_m a') fw" .
  have wfzs: "list_all wf_m zs" using wffw by (auto simp: zs_def list_all_iff)
  have "last acts = snd (last fw)" "last zs = fst (last fw)"
    using fwne by (simp_all add: acts_def zs_def last_map)
  moreover have "last fw \<in> set fw" using fwne by simp
  ultimately have wl: "wf_m (last acts)" "wf_m (last zs)"
    using wffw by (auto simp: list_all_iff)
  from d obtain err where err: "subtract_m (last acts) expected = Inr err"
    "hadamard_m err (apply_m invSigmoid (last zs)) = Inr delta"
    by (auto simp: output_delta_def bindE_Inr_iff)
  have "wf_m err" using subtract_m_Inr(3) [OF err(1)] wl(1) e by simp
  then have wfd: "wf_m delta" using hadamard_m_Inr(3) [OF err(2)] wl(2) by simp
  have wfg: "wf_m (fst g)" "wf_m (snd g)" using gradients_Inr [OF g] wfd by simp_all
  have "wf_m z" if "(w, z, a) \<in> set (rev (butlast (zip W (zip zs (butlast acts)))))" for w z a
  proof -
    from that have "(w, z, a) \<in> set (zip W (zip zs (butlast acts)))"
      by (auto dest: in_set_butlastD)
    then have "(z, a) \<in> set (zip zs (butlast acts))" by (rule set_zip_rightD)
    then have "z \<in> set zs" by (rule set_zip_leftD)
    then show ?thesis using wfzs by (simp add: list_all_iff)
  qed
  then have "list_all (\<lambda>(w, z, a). wf_m z) (rev (butlast (zip W (zip zs (butlast acts)))))"
    unfolding list_all_iff by blast
  from backward_spec_wf [OF gs this] have wfgs: "list_all (\<lambda>(gw, gb). wf_m gw \<and> wf_m gb) gs" .
  have lgs: "length gs = length W - 1"
    using backward_spec_length [OF gs] lfw fwne by (simp add: zs_def acts_def)
  have Wne: "W \<noteq> []" using lfw fwne by auto
  have lG: "length (rev (g # gs)) = length W" using lgs Wne by (cases W) simp_all
  have "list_all (\<lambda>((w, b), (gw, gb)). wf_m w \<and> wf_m b \<and> wf_m gw \<and> wf_m gb) (zip (zip W B) (rev (g # gs)))"
  proof -
    have "wf_m w \<and> wf_m b \<and> wf_m gw \<and> wf_m gb"
      if "((w, b), (gw, gb)) \<in> set (zip (zip W B) (rev (g # gs)))" for w b gw gb
    proof -
      from that have "(w, b) \<in> set (zip W B)" "(gw, gb) \<in> set (rev (g # gs))"
        by (auto dest: set_zip_leftD set_zip_rightD)
      then have "w \<in> set W" "b \<in> set B" "(gw, gb) = g \<or> (gw, gb) \<in> set gs"
        by (auto dest: set_zip_leftD set_zip_rightD)
      then show ?thesis using wfW wfB wfg wfgs by (auto simp: list_all_iff)
    qed
    then show ?thesis unfolding list_all_iff by blast
  qed
  from update_spec_shapes [OF new this] have sh:
    "map shape (map fst new) = map (shape \<circ> fst \<circ> fst) (zip (zip W B) (rev (g # gs)))"
    "map shape (map snd new) = map (shape \<circ> snd \<circ> fst) (zip (zip W B) (rev (g # gs)))"
    "list_all wf_m (map fst new)" "list_all wf_m (map snd new)"
    by simp_all
  have f: "map fst (zip (zip W B) (rev (g # gs))) = zip W B"
    using lG len by (intro map_fst_zip) simp
  have "map (shape \<circ> fst \<circ> fst) (zip (zip W B) (rev (g # gs))) = map shape (map fst (map fst (zip (zip W B) (rev (g # gs)))))"
    by simp
  also have "\<dots> = map shape W" unfolding f using len by simp
  finally have s1: "map shape (map fst new) = map shape W" using sh(1) by simp
  have "map (shape \<circ> snd \<circ> fst) (zip (zip W B) (rev (g # gs))) = map shape (map snd (map fst (zip (zip W B) (rev (g # gs)))))"
    by simp
  also have "\<dots> = map shape B" unfolding f using len by simp
  finally have s2: "map shape (map snd new) = map shape B" using sh(2) by simp
  show ?thesis
    using inv s1 s2 sh(3,4) unfolding net_inv_def net' by (simp add: W_def B_def)
qed

lemma learn_preserves_inv:
  fixes net :: "'a::{zero,plus,minus,times} NeuralNet"
  assumes inv: "net_inv ws net" and e: "wf_m expected"
    and l: "learn sigmoid invSigmoid net inputs expected eta = Inr net'"
  shows "net_inv ws net'"
proof (cases "weights net = []")
  case True
  then have "biases net = []" using net_inv_lengths [OF inv] by simp
  with True l learn_no_layers show ?thesis by blast
next
  case False
  from net_inv_learn_pre [OF inv False] l
  have "learn_spec sigmoid invSigmoid net inputs expected eta = Inr net'"
    by (simp add: learn_eq_spec [OF _ False])
  from learn_spec_preserves_inv [OF inv e this] show ?thesis .
qed

lemma forward_spec_columns:
  assumes "ws \<noteq> []" "map shape Ws = zip (tl ws) (butlast ws)" "map shape Bs = map (\<lambda>r. (r, 1)) (tl ws)"
    "list_all wf_m Ws" "list_all wf_m Bs" "column (hd ws) x" "list_all (\<lambda>w. int w \<le> INT_MAX) ws"
  shows "\<exists>fw. forward_spec sigmoid (zip Ws Bs) x = Inr fw
     \<and> list_all2 (\<lambda>u (z, a). column u z \<and> column u a) (tl ws) fw"
  using assms
proof (induction ws arbitrary: Ws Bs x)
  case Nil
  then show ?case by simp
next
  case (Cons w0 ws)
  show ?case
  proof (cases ws)
    case Nil
    with Cons.prems show ?thesis by simp
  next
    case (Cons w1 ws')
    with Cons.prems obtain W Ws' B Bs' where W: "Ws = W # Ws'" "Bs = B # Bs'"
      by (cases Ws; cases Bs) auto
    have sh: "shape W = (w1, w0)" "shape B = (w1, 1)" "wf_m W" "wf_m B"
      "map shape Ws' = zip (tl ws) (butlast ws)" "map shape Bs' = map (\<lambda>r. (r, 1)) (tl ws)"
      "list_all wf_m Ws'" "list_all wf_m Bs'"
      using Cons.prems W Cons by auto
    have colB: "column w1 B" using sh by (simp add: column_def)
    have colx: "column w0 x" using Cons.prems by simp
    have bnd: "int w0 \<le> INT_MAX" "list_all (\<lambda>w. int w \<le> INT_MAX) ws" using Cons.prems by simp_all
    from layer_column [OF sh(3) sh(1) colB colx bnd(1)] obtain z where
      z: "bindE (dot W x) (\<lambda>wa. add_m wa B) = Inr z" "column w1 z" by blast
    have cz: "column (hd ws) (apply_m sigmoid z)" using z(2) Cons by (simp add: apply_m_column)
    from Cons.IH [OF _ sh(5,6,7,8) cz bnd(2)] obtain fw where
      fw: "forward_spec sigmoid (zip Ws' Bs') (apply_m sigmoid z) = Inr fw"
      "list_all2 (\<lambda>u (z, a). column u z \<and> column u a) (tl ws) fw"
      using Cons by auto
    from z(1) obtain wa where wa: "dot W x = Inr wa" "add_m wa B = Inr z"
      by (cases "dot W x") auto
    show ?thesis using fw wa W Cons z(2) cz by simp
  qed
qed

lemma gradients_succeeds:
  assumes d: "column r delta" and a: "column c a" and c: "0 < c" "int c \<le> INT_MAX"
  shows "\<exists>gw. gradients delta a = Inr (gw, delta) \<and> wf_m gw \<and> shape gw = (r, c)"
proof -
  have wa: "wf_m a" "0 < rows a" "0 < cols a" "int (rows a) \<le> INT_MAX" "int (cols a) \<le> INT_MAX"
    using a c by (simp_all add: column_def shape_def INT_MAX_def)
  from transpose_m_nonempty [OF wa] obtain T where T: "transpose_m a = Inr T" "rows T = cols a"
    "cols T = rows a" "wf_m T" by blast
  have fT: "fits_int T" using T(2,3) wa(4,5) by (simp add: fits_int_def)
  have "wf_m delta" "cols delta = rows T" using d a T by (simp_all add: column_def shape_def)
  from dot_correct [OF this(1) T(4) this(2) fT] obtain gw where
    "dot delta T = Inr gw" "rows gw = rows delta" "cols gw = cols T" "wf_m gw" by blast
  then show ?thesis using T d a by (simp add: gradients_def column_def shape_def)
qed

lemma hadamard_m_column:
  "column n a \<Longrightarrow> column n b \<Longrightarrow> \<exists>r. hadamard_m a b = Inr r \<and> column n r"
  by (auto simp: hadamard_m_def column_def shape_def wf_m_def)

lemma subtract_m_column:
  "column n a \<Longrightarrow> column n b \<Longrightarrow> \<exists>r. subtract_m a b = Inr r \<and> column n r"
  by (auto simp: subtract_m_def column_def shape_def wf_m_def)

lemma backward_step_succeeds:
  assumes wn: "wf_m w_next" "shape w_next = (u0, u1)" and pos: "0 < u0" "0 < u1" "0 < u2"
    and bnd: "int u0 \<le> INT_MAX" "int u1 \<le> INT_MAX" "int u2 \<le> INT_MAX"
    and d: "column u0 delta" and z: "column u1 z" and a: "column u2 a"
  shows "\<exists>delta' gw. bindE (transpose_m w_next) (\<lambda>wt.
            bindE (dot wt delta) (\<lambda>wd. hadamard_m wd (apply_m invSigmoid z))) = Inr delta'
          \<and> column u1 delta'
          \<and> gradients delta' a = Inr (gw, delta') \<and> wf_m gw \<and> shape gw = (u1, u2)"
proof -
  have "0 < rows w_next" "0 < cols w_next" "int (rows w_next) \<le> INT_MAX" "int (cols w_next) \<le> INT_MAX"
    using wn pos bnd by (simp_all add: shape_def)
  from transpose_m_nonempty [OF wn(1) this] obtain wt where wt: "transpose_m w_next = Inr wt"
    "wf_m wt" "shape wt = (u1, u0)" using wn by (auto simp: shape_def)
  from dot_column [OF wt(2,3) d bnd(1)] obtain wd where wd: "dot wt delta = Inr wd" "column u1 wd" by blast
  from hadamard_m_column [OF wd(2) apply_m_column [OF z]] obtain delta' where
    dl: "hadamard_m wd (apply_m invSigmoid z) = Inr delta'" "column u1 delta'" by blast
  from gradients_succeeds [OF dl(2) a pos(3) bnd(3)] obtain gw where
    "gradients delta' a = Inr (gw, delta')" "wf_m gw" "shape gw = (u1, u2)" by blast
  then show ?thesis using wt(1) wd(1) dl by simp
qed

lemma backward_spec_succeeds:
  assumes "length us = length tr + 2" "\<forall>u\<in>set us. 0 < u \<and> int u \<le> INT_MAX"
    "column (us ! 0) delta" "wf_m w_next" "shape w_next = (us ! 0, us ! 1)"
    "\<forall>j<length tr. case tr ! j of (w, z, a) \<Rightarrow>
        wf_m w \<and> shape w = (us ! (j + 1), us ! (j + 2)) \<and> column (us ! (j + 1)) z \<and> column (us ! (j + 2)) a"
  shows "\<exists>gs. backward_spec invSigmoid delta w_next tr = Inr gs \<and> length gs = length tr
     \<and> (\<forall>j<length tr. case gs ! j of (gw, gb) \<Rightarrow>
           wf_m gw \<and> shape gw = (us ! (j + 1), us ! (j + 2)) \<and> column (us ! (j + 1)) gb)"
  using assms
proof (induction tr arbitrary: us delta w_next)
  case Nil
  then show ?case by simp
next
  case (Cons t tr)
  obtain w z a where t: "t = (w, z, a)" by (cases t)
  from Cons.prems(1) obtain u0 u1 u2 us' where us: "us = u0 # u1 # u2 # us'"
    by (cases us; cases "tl us"; cases "tl (tl us)") auto
  have pos: "0 < u0" "0 < u1" "0 < u2" "\<forall>u\<in>set (u1 # u2 # us'). 0 < u \<and> int u \<le> INT_MAX"
    and bnd: "int u0 \<le> INT_MAX" "int u1 \<le> INT_MAX" "int u2 \<le> INT_MAX"
    using Cons.prems(2) us by simp_all
  have h0: "wf_m w" "shape w = (u1, u2)" "column u1 z" "column u2 a"
    using Cons.prems(6) [rule_format, of 0] t us by simp_all
  have d: "column u0 delta" and wn: "wf_m w_next" "shape w_next = (u0, u1)"
    using Cons.prems(3,4,5) us by simp_all
  from backward_step_succeeds [OF wn pos(1,2,3) bnd d h0(3,4)] obtain delta' gw where s:
    "bindE (transpose_m w_next) (\<lambda>wt.
            bindE (dot wt delta) (\<lambda>wd. hadamard_m wd (apply_m invSigmoid z))) = Inr delta'"
    "column u1 delta'" "gradients delta' a = Inr (gw, delta')" "wf_m gw" "shape gw = (u1, u2)"
    by blast
  have rest: "\<forall>j<length tr. case tr ! j of (w, z, a) \<Rightarrow>
        wf_m w \<and> shape w = ((u1 # u2 # us') ! (j + 1), (u1 # u2 # us') ! (j + 2))
        \<and> column ((u1 # u2 # us') ! (j + 1)) z \<and> column ((u1 # u2 # us') ! (j + 2)) a"
  proof (intro allI impI)
    fix j assume "j < length tr"
    then show "case tr ! j of (w, z, a) \<Rightarrow>
        wf_m w \<and> shape w = ((u1 # u2 # us') ! (j + 1), (u1 # u2 # us') ! (j + 2))
        \<and> column ((u1 # u2 # us') ! (j + 1)) z \<and> column ((u1 # u2 # us') ! (j + 2)) a"
      using Cons.prems(6) [rule_format, of "Suc j"] us by simp
  qed
  have "length (u1 # u2 # us') = length tr + 2" using Cons.prems(1) us by simp
  from Cons.IH [OF this pos(4) _ h0(1) _ rest, of delta'] s(2) h0(2)
  obtain gs where gs: "backward_spec invSigmoid delta' w tr = Inr gs" "length gs = length tr"
    "\<forall>j<length tr. case gs ! j of (gw, gb) \<Rightarrow>
           wf_m gw \<and> shape gw = ((u1 # u2 # us') ! (j + 1), (u1 # u2 # us') ! (j + 2))
           \<and> column ((u1 # u2 # us') ! (j + 1)) gb"
    by auto
  have eq: "backward_spec invSigmoid delta w_next (t # tr) = Inr ((gw, delta') # gs)"
    using s(1,3) gs(1) unfolding t by (auto simp: bindE_Inr_iff)
  have "\<forall>j<length (t # tr). case ((gw, delta') # gs) ! j of (gw, gb) \<Rightarrow>
           wf_m gw \<and> shape gw = (us ! (j + 1), us ! (j + 2)) \<and> column (us ! (j + 1)) gb"
  proof (intro allI impI)
    fix j assume j: "j < length (t # tr)"
    show "case ((gw, delta') # gs) ! j of (gw, gb) \<Rightarrow>
           wf_m gw \<and> shape gw = (us ! (j + 1), us ! (j + 2)) \<and> column (us ! (j + 1)) gb"
    proof (cases j)
      case 0
      then show ?thesis using s us by simp
    next
      case (Suc i)
      then have "i < length tr" using j by simp
      with gs(3) Suc us show ?thesis by simp
    qed
  qed
  with eq gs(2) show ?case by auto
qed

lemma update_spec_succeeds:
  assumes "list_all (\<lambda>((w, b), (gw, gb)). shape gw = shape w \<and> shape gb = shape b) xs"
  shows "\<exists>new. update_spec eta xs = Inr new"
  using assms
proof (induction xs)
  case Nil
  then show ?case by simp
next
  case (Cons x xs)
  obtain w b gw gb where x: "x = ((w, b), (gw, gb))" by (cases x) auto
  from Cons obtain new where "update_spec eta xs = Inr new" by auto
  moreover have "\<exists>w'. subtract_m w (scale_m gw eta) = Inr w'" "\<exists>b'. subtract_m b (scale_m gb eta) = Inr b'"
    using Cons.prems x by (simp_all add: subtract_m_def scale_m_def shape_def)
  ultimately show ?case unfolding x by auto
qed

lemma net_inv_nth:
  assumes inv: "net_inv ws net" and t: "Suc t < length ws"
  shows "wf_m (weights net ! t)" "shape (weights net ! t) = (ws ! Suc t, ws ! t)"
    "column (ws ! Suc t) (biases net ! t)"
proof -
  have l: "length (weights net) = length ws - 1" "length (biases net) = length ws - 1"
    using net_inv_lengths [OF inv] by simp_all
  have tl: "t < length (weights net)" "t < length (biases net)" using l t by simp_all
  show "wf_m (weights net ! t)" using inv tl by (simp add: net_inv_def list_all_length)
  have "map shape (weights net) ! t = zip (tl ws) (butlast ws) ! t"
    using inv by (simp add: net_inv_def)
  then show "shape (weights net ! t) = (ws ! Suc t, ws ! t)"
    using tl t by (simp add: nth_tl nth_butlast)
  have "map shape (biases net) ! t = map (\<lambda>r. (r, 1)) (tl ws) ! t"
    using inv by (simp add: net_inv_def)
  then have "shape (biases net ! t) = (ws ! Suc t, 1)"
    using tl t by (simp add: nth_tl)
  moreover have "wf_m (biases net ! t)" using inv tl by (simp add: net_inv_def list_all_length)
  ultimately show "column (ws ! Suc t) (biases net ! t)" by (simp add: column_def)
qed

lemma backward_triples_nth:
  assumes "length W = n" "length zs = n" "length acts = Suc n" "j + 2 \<le> n"
  shows "rev (butlast (zip W (zip zs (butlast acts)))) ! j
       = (W ! (n - 2 - j), zs ! (n - 2 - j), acts ! (n - 2 - j))"
proof -
  have a: "n - 2 - j < n - 1" using assms(4) by simp
  have "rev (butlast (zip W (zip zs (butlast acts)))) ! j
      = butlast (zip W (zip zs (butlast acts))) ! (n - 1 - Suc j)"
    using assms by (subst rev_nth) simp_all
  also have "n - 1 - Suc j = n - 2 - j" by simp
  also have "butlast (zip W (zip zs (butlast acts))) ! (n - 2 - j) = zip W (zip zs (butlast acts)) ! (n - 2 - j)"
    using a assms by (intro nth_butlast) simp
  also have "\<dots> = (W ! (n - 2 - j), zs ! (n - 2 - j), acts ! (n - 2 - j))"
    using a assms by (simp add: nth_butlast)
  finally show ?thesis .
qed

lemma learn_spec_succeeds:
  fixes net :: "'a::{zero,plus,minus,times} NeuralNet"
  assumes inv: "net_inv ws net" and len2: "2 \<le> length ws" and pos: "\<forall>w\<in>set ws. 0 < w"
    and x: "column (hd ws) inputs" and e: "column (last ws) expected"
  shows "\<exists>net'. learn_spec sigmoid invSigmoid net inputs expected eta = Inr net'"
proof -
  define n where "n = length ws - 1"
  define W where "W = weights net"
  define B where "B = biases net"
  define us where "us = rev ws"
  have n: "0 < n" and lws: "length ws = Suc n" using len2 by (simp_all add: n_def)
  have wsne: "ws \<noteq> []" using len2 by auto
  have lW: "length W = n" and lB: "length B = n"
    using net_inv_lengths [OF inv] by (simp_all add: W_def B_def n_def)
  have Wt: "wf_m (W ! t)" "shape (W ! t) = (ws ! Suc t, ws ! t)" "column (ws ! Suc t) (B ! t)"
    if "t < n" for t
    using net_inv_nth [OF inv, of t] that lws by (simp_all add: W_def B_def)
  have wpos: "0 < ws ! t" if "t \<le> n" for t using pos that lws by simp
  have bnd: "list_all (\<lambda>w. int w \<le> INT_MAX) ws" using inv by (simp add: net_inv_def)
  have wbnd: "int (ws ! t) \<le> INT_MAX" if "t \<le> n" for t
    using bnd that lws by (simp add: list_all_length)
  have usn: "us ! j = ws ! (n - j)" if "j \<le> n" for j
    unfolding us_def using that lws by (subst rev_nth) simp_all
  \<comment> \<open>the forward pass\<close>
  from inv x wsne obtain fw where fw: "forward_spec sigmoid (zip W B) inputs = Inr fw"
    and fwc: "list_all2 (\<lambda>u (z, a). column u z \<and> column u a) (tl ws) fw"
    unfolding W_def B_def
    using forward_spec_columns [of ws "weights net" "biases net" inputs sigmoid]
    by (auto simp: net_inv_def)
  have lfw: "length fw = n" using list_all2_lengthD [OF fwc] lws by simp
  have fwne: "fw \<noteq> []" using lfw n by auto
  define zs where "zs = map fst fw"
  define acts where "acts = inputs # map snd fw"
  have lzs: "length zs = n" and lacts: "length acts = Suc n" by (simp_all add: zs_def acts_def lfw)
  have fwt: "column (ws ! Suc t) (zs ! t)" "column (ws ! Suc t) (acts ! Suc t)" if "t < n" for t
  proof -
    have "(case fw ! t of (z, a) \<Rightarrow> column (tl ws ! t) z \<and> column (tl ws ! t) a)"
      using list_all2_nthD2 [OF fwc, of t] that lfw by simp
    then show "column (ws ! Suc t) (zs ! t)" "column (ws ! Suc t) (acts ! Suc t)"
      using that lfw lws by (simp_all add: zs_def acts_def nth_tl split_def)
  qed
  have actt: "column (ws ! t) (acts ! t)" if "t \<le> n" for t
  proof (cases t)
    case 0
    then show ?thesis using x wsne by (simp add: acts_def hd_conv_nth)
  next
    case (Suc i)
    then show ?thesis using fwt(2) [of i] that by simp
  qed
  have lasts: "last acts = acts ! n" "last zs = zs ! (n - 1)" "last ws = ws ! n"
    "last (butlast acts) = acts ! (n - 1)" "last W = W ! (n - 1)"
    using lacts lzs lws lW n
    by (simp_all add: last_conv_nth nth_butlast
          length_greater_0_conv [symmetric] del: length_greater_0_conv)
  \<comment> \<open>the output error and its gradients\<close>
  have c1: "column (ws ! n) (apply_m invSigmoid (last zs))"
    using fwt(1) [of "n - 1"] n lasts by (simp add: apply_m_column)
  have c2: "column (ws ! n) (last acts)" using actt [of n] lasts by simp
  have c3: "column (ws ! n) expected" using e lasts by simp
  from subtract_m_column [OF c2 c3] obtain err where
    err: "subtract_m (last acts) expected = Inr err" "column (ws ! n) err" by blast
  from hadamard_m_column [OF err(2) c1] obtain delta where
    dl: "hadamard_m err (apply_m invSigmoid (last zs)) = Inr delta" "column (ws ! n) delta" by blast
  have delta: "output_delta invSigmoid (last acts) expected (last zs) = Inr delta"
    "column (ws ! n) delta"
    using err(1) dl by (simp_all add: output_delta_def)
  have "column (ws ! (n - 1)) (last (butlast acts))" using actt [of "n - 1"] lasts by simp
  from gradients_succeeds [OF delta(2) this wpos wbnd] obtain gw where
    g: "gradients delta (last (butlast acts)) = Inr (gw, delta)" "wf_m gw" "shape gw = (ws ! n, ws ! (n - 1))"
    by auto
  \<comment> \<open>the backward pass\<close>
  define R where "R = rev (butlast (zip W (zip zs (butlast acts))))"
  have lR: "length R = n - 1" by (simp add: R_def lW lzs lacts)
  have b1: "length us = length R + 2" using lR lws n by (simp add: us_def)
  have b2: "\<forall>u\<in>set us. 0 < u \<and> int u \<le> INT_MAX"
    using pos bnd by (simp add: us_def list_all_iff)
  have b3: "column (us ! 0) delta" using delta(2) usn [of 0] by simp
  have b4: "wf_m (last W)" "shape (last W) = (us ! 0, us ! 1)"
    using Wt [of "n - 1"] n lasts usn [of 0] usn [of 1] by simp_all
  have b5: "\<forall>j<length R. case R ! j of (w, z, a) \<Rightarrow>
        wf_m w \<and> shape w = (us ! (j + 1), us ! (j + 2)) \<and> column (us ! (j + 1)) z \<and> column (us ! (j + 2)) a"
  proof (intro allI impI)
    fix j assume "j < length R"
    then have j: "j + 2 \<le> n" using lR by simp
    have t: "n - 2 - j < n" "Suc (n - 2 - j) = n - (j + 1)" "n - 2 - j = n - (j + 2)" "n - 2 - j \<le> n"
      using j by simp_all
    have Rj: "R ! j = (W ! (n - 2 - j), zs ! (n - 2 - j), acts ! (n - 2 - j))"
      unfolding R_def by (rule backward_triples_nth [OF lW lzs lacts j])
    have u: "us ! (j + 1) = ws ! Suc (n - 2 - j)" "us ! (j + 2) = ws ! (n - 2 - j)"
      using usn [of "j + 1"] usn [of "j + 2"] j t by simp_all
    show "case R ! j of (w, z, a) \<Rightarrow>
        wf_m w \<and> shape w = (us ! (j + 1), us ! (j + 2)) \<and> column (us ! (j + 1)) z \<and> column (us ! (j + 2)) a"
      unfolding Rj u using Wt(1,2) [OF t(1)] fwt(1) [OF t(1)] actt [OF t(4)] by simp
  qed
  from backward_spec_succeeds [OF b1 b2 b3 b4 b5, of invSigmoid] obtain gs where
    gs: "backward_spec invSigmoid delta (last W) R = Inr gs" "length gs = n - 1"
    "\<forall>j<n - 1. case gs ! j of (gw, gb) \<Rightarrow>
           wf_m gw \<and> shape gw = (us ! (j + 1), us ! (j + 2)) \<and> column (us ! (j + 1)) gb"
    using lR by auto
  \<comment> \<open>the update\<close>
  define G where "G = (gw, delta) # gs"
  have lG: "length G = n" using gs(2) n by (simp add: G_def)
  have Gj: "shape (fst (G ! j)) = (us ! j, us ! (j + 1)) \<and> column (us ! j) (snd (G ! j))" if "j < n" for j
  proof (cases j)
    case 0
    then show ?thesis using g(3) delta(2) usn [of 0] usn [of 1] n by (simp add: G_def)
  next
    case (Suc i)
    then have "i < n - 1" using that by simp
    with gs(3) Suc show ?thesis by (auto simp: G_def split_def)
  qed
  have "\<forall>t<length (zip (zip W B) (rev G)).
          shape (fst (snd (zip (zip W B) (rev G) ! t))) = shape (fst (fst (zip (zip W B) (rev G) ! t)))
        \<and> shape (snd (snd (zip (zip W B) (rev G) ! t))) = shape (snd (fst (zip (zip W B) (rev G) ! t)))"
  proof (intro allI impI)
    fix t assume "t < length (zip (zip W B) (rev G))"
    then have t: "t < n" using lW lB lG by simp
    have r: "rev G ! t = G ! (n - Suc t)" using t lG by (simp add: rev_nth)
    have i: "n - Suc t < n" "n - (n - Suc t) = Suc t" "n - (n - Suc t + 1) = t" "n - Suc t \<le> n" "n - Suc t + 1 \<le> n"
      using t by simp_all
    have "shape (fst (G ! (n - Suc t))) = (ws ! Suc t, ws ! t)" "column (ws ! Suc t) (snd (G ! (n - Suc t)))"
      using Gj [OF i(1)] usn [OF i(4)] usn [OF i(5)] i(2,3) by simp_all
    then show "shape (fst (snd (zip (zip W B) (rev G) ! t))) = shape (fst (fst (zip (zip W B) (rev G) ! t)))
        \<and> shape (snd (snd (zip (zip W B) (rev G) ! t))) = shape (snd (fst (zip (zip W B) (rev G) ! t)))"
      using t lW lB lG r Wt [OF t] by (simp add: column_def)
  qed
  then have "list_all (\<lambda>((w, b), (gw, gb)). shape gw = shape w \<and> shape gb = shape b) (zip (zip W B) (rev G))"
    by (simp add: list_all_length split_def)
  from update_spec_succeeds [OF this, of eta] obtain new where
    new: "update_spec eta (zip (zip W B) (rev G)) = Inr new" by blast
  show ?thesis
    unfolding learn_spec_def Let_def
    using fw fwne delta(1) g(1) gs(1) new
    by (simp add: W_def B_def zs_def acts_def R_def G_def)
qed

section \<open>Claims about the learning step and the constructor\<close>

text \<open>
  Claim C1, as stated, covers every network and every input and expected output with
  shapes matching the layer widths. A width can be \<open>0\<close>: for the network that the
  constructor makes of the widths \<open>0, 1\<close>, the input \<open>0 \<times> 1\<close> and an expected output
  \<open>1 \<times> 1\<close>, the forward pass and the output error are computed, and the gradient of the
  weight, \<open>delta.dot(activation\<^sup>T)\<close>, is not: \<^verbatim>\<open>transpose\<close> returns the empty activation as
  it is, \<open>0 \<times> 1\<close>, and the \<^verbatim>\<open>assert\<close> of \<^verbatim>\<open>dot\<close> fails. No weight and no bias is updated.
  And the constructor accepts a single width: that network has no parameter, the forward
  pass records no \<open>z\<close>, and \<^verbatim>\<open>zs.back()\<close> is undefined.
\<close>

theorem learn_performs_backprop_counterexample:
  "NeuralNet_ctor (\<lambda>i. i) [0, 1] = Inr net01
   \<and> net_inv [0, 1] net01 \<and> column (hd [0, 1]) x01 \<and> column (last [0, 1]) e1
   \<and> learn act1 dact1 net01 x01 e1 3 = Inl AssertFail
   \<and> NeuralNet_ctor (\<lambda>i. i) [1] = Inr net_single
   \<and> net_inv [1] net_single \<and> column (hd [1]) e1 \<and> column (last [1]) e1
   \<and> learn act1 dact1 net_single e1 e1 3 = Inl Undefined"
proof -
  have "NeuralNet_ctor (\<lambda>i. i) [0, 1] = Inr net01" "NeuralNet_ctor (\<lambda>i. i) [1] = Inr net_single"
    by code_simp+
  moreover have "net_inv [0, 1] net01" "net_inv [1] net_single"
    by (simp_all add: net_inv_def net01_def net_single_def shape_def wf_m_def INT_MAX_def)
  moreover have "column (hd [0, 1]) x01" "column (last [0, 1]) e1" "column (hd [1]) e1"
    "column (last [1]) e1"
    by (simp_all add: column_def x01_def e1_def shape_def wf_m_def)
  moreover have "learn act1 dact1 net01 x01 e1 3 = Inl AssertFail"
    "learn act1 dact1 net_single e1 e1 3 = Inl Undefined"
    by code_simp+
  ultimately show ?thesis by simp
qed

text \<open>
  Claim C1, amended. For every network of at least two layers in which every layer has at
  least one neuron, and every input, expected output and rate with shapes matching the
  layer widths of the network, one call to \<open>learn\<close> returns the network that results from
  (1) the forward pass that records \<open>z\<close> and the activation of every layer, starting
  from the input, (2) the output error \<open>(finalActivation - expected) \<odot> sigmoid'(z_last)\<close>,
  (3) for each earlier layer \<open>delta = (weights[layer+1]\<^sup>T.dot(delta)) \<odot> sigmoid'(z_layer)\<close>
  with the gradient of the bias \<open>delta\<close> and the gradient of the weight
  \<open>delta.dot(activation\<^sup>T)\<close>, and (4) the update of every weight and bias by \<open>eta\<close> times
  its gradient. \<open>learn_spec\<close> is these four steps; \<open>net_inv ws net\<close> says that \<open>net\<close> is a
  network with the layer widths \<open>ws\<close>, which are \<^verbatim>\<open>int\<close> values.
\<close>

theorem learn_performs_backprop:
  fixes net :: "'a::{zero,plus,minus,times} NeuralNet"
  assumes "net_inv ws net" and "2 \<le> length ws" and "\<forall>w\<in>set ws. 0 < w"
    and "column (hd ws) inputs" and "column (last ws) expected"
  shows "\<exists>net'. learn sigmoid invSigmoid net inputs expected eta = Inr net'
     \<and> learn_spec sigmoid invSigmoid net inputs expected eta = Inr net'"
proof -
  have ne: "weights net \<noteq> []" using net_inv_lengths(1) [OF assms(1)] assms(2) by auto
  have eq: "learn sigmoid invSigmoid net inputs expected eta
           = learn_spec sigmoid invSigmoid net inputs expected eta"
    using net_inv_learn_pre [OF assms(1) ne] ne by (intro learn_eq_spec)
  show ?thesis
    using eq learn_spec_succeeds [OF assms, of sigmoid invSigmoid eta] by auto
qed

theorem learn_performs_backprop_witness:
  "net_inv [2, 2, 1] net1 \<and> 2 \<le> length [2, 2, 1::nat] \<and> list_all (\<lambda>w. 0 < w) [2, 2, 1::nat]
   \<and> column (hd [2, 2, 1]) x1 \<and> column (last [2, 2, 1]) e1
   \<and> (\<exists>net'. learn act1 dact1 net1 x1 e1 3 = Inr net'
         \<and> learn_spec act1 dact1 net1 x1 e1 3 = Inr net')"
proof -
  have a: "net_inv [2, 2, 1] net1"
    by (simp add: net_inv_def net1_def shape_def wf_m_def INT_MAX_def)
  have b: "column (hd [2, 2, 1]) x1" "column (last [2, 2, 1]) e1"
    by (simp_all add: column_def x1_def e1_def shape_def wf_m_def)
  have c: "2 \<le> length [2, 2, 1::nat]" by simp
  have d: "\<forall>w\<in>set [2, 2, 1::nat]. 0 < w" by simp
  have e: "list_all (\<lambda>w. 0 < w) [2, 2, 1::nat]" by simp
  from learn_performs_backprop [OF a c d b, of act1 dact1 3]
  have r: "\<exists>net'. learn act1 dact1 net1 x1 e1 3 = Inr net'
         \<and> learn_spec act1 dact1 net1 x1 e1 3 = Inr net'" .
  show ?thesis using a b c e r by blast
qed

text \<open>
  Claim C6. For every list of layer widths of length \<open>L \<ge> 2\<close>, the constructor
  establishes \<open>len(biases) = len(weights) = L - 1\<close> with \<open>weights[l]\<close> of shape
  \<open>layerSizes[l+1] \<times> layerSizes[l]\<close> and \<open>biases[l]\<close> of shape \<open>layerSizes[l+1] \<times> 1\<close>
  (the invariant \<open>net_inv\<close> for these widths), every parameter entry being zero; and
  every call to \<open>learn\<close> that returns preserves these lengths and shapes. A width is
  a number of neurons: the entries of the list are \<^verbatim>\<open>int\<close> values from \<open>0\<close> on.
\<close>

theorem ctor_and_learn_keep_shapes:
  fixes net :: "'a::{zero,plus,minus,times} NeuralNet"
  shows "(2 \<le> length layers \<and> (\<forall>w\<in>set layers. 0 \<le> w \<and> w \<le> INT_MAX) \<longrightarrow>
            (\<exists>net0 :: 'a NeuralNet. NeuralNet_ctor val_of_int layers = Inr net0
               \<and> net_inv (map nat layers) net0
               \<and> data (layerSizes net0) = map val_of_int layers
               \<and> (\<forall>m\<in>set (weights net0) \<union> set (biases net0). \<forall>v\<in>set (data m). v = 0)))
       \<and> (net_inv ws net \<and> wf_m expected
            \<and> learn sigmoid invSigmoid net inputs expected eta = Inr net' \<longrightarrow>
            net_inv ws net' \<and> layerSizes net' = layerSizes net)"
proof (intro conjI impI)
  assume "2 \<le> length layers \<and> (\<forall>w\<in>set layers. 0 \<le> w \<and> w \<le> INT_MAX)"
  then show "\<exists>net0 :: 'a NeuralNet. NeuralNet_ctor val_of_int layers = Inr net0
               \<and> net_inv (map nat layers) net0
               \<and> data (layerSizes net0) = map val_of_int layers
               \<and> (\<forall>m\<in>set (weights net0) \<union> set (biases net0). \<forall>v\<in>set (data m). v = 0)"
    using ctor_establishes [of layers val_of_int] by blast
next
  assume a: "net_inv ws net \<and> wf_m expected
            \<and> learn sigmoid invSigmoid net inputs expected eta = Inr net'"
  then show "net_inv ws net'" using learn_preserves_inv by blast
  show "layerSizes net' = layerSizes net"
  proof (cases "weights net = []")
    case True
    then have "biases net = []" using a net_inv_lengths [of ws net] by simp
    with True a learn_no_layers show ?thesis by blast
  next
    case False
    from a have inv: "net_inv ws net" by simp
    from net_inv_learn_pre [OF inv False] a
    have "learn_spec sigmoid invSigmoid net inputs expected eta = Inr net'"
      by (simp add: learn_eq_spec [OF _ False])
    then show ?thesis
      by (auto simp: learn_spec_def Let_def bindE_Inr_iff split: if_splits)
  qed
qed

theorem ctor_and_learn_keep_shapes_witness:
  "2 \<le> length [2, 2, 1::int] \<and> list_all (\<lambda>w. 0 \<le> w \<and> w \<le> INT_MAX) [2, 2, 1::int]
   \<and> (\<exists>net0 :: int NeuralNet. NeuralNet_ctor (\<lambda>i. i) [2, 2, 1] = Inr net0
         \<and> net_inv (map nat [2, 2, 1]) net0
         \<and> data (layerSizes net0) = map (\<lambda>i. i) [2, 2, 1]
         \<and> (\<forall>m\<in>set (weights net0) \<union> set (biases net0). \<forall>v\<in>set (data m). v = 0))
   \<and> net_inv [2, 2, 1] net1 \<and> wf_m e1 \<and> learn act1 dact1 net1 x1 e1 3 = Inr net1'
   \<and> net_inv [2, 2, 1] net1' \<and> layerSizes net1' = layerSizes net1"
proof -
  have a: "net_inv [2, 2, 1] net1"
    by (simp add: net_inv_def net1_def shape_def wf_m_def INT_MAX_def)
  have b: "wf_m e1" by (simp add: e1_def wf_m_def)
  have c: "learn act1 dact1 net1 x1 e1 3 = Inr net1'" by code_simp
  have d: "2 \<le> length [2, 2, 1::int] \<and> (\<forall>w\<in>set [2, 2, 1::int]. 0 \<le> w \<and> w \<le> INT_MAX)"
    by (simp add: INT_MAX_def)
  from ctor_and_learn_keep_shapes [of "[2, 2, 1]" "\<lambda>i. i" "[2, 2, 1]" net1 e1 act1 dact1 x1 3 net1']
    a b c d
  show ?thesis by simp
qed


section \<open>Streams\<close>

subsection \<open>Printing and reading numbers\<close>

lemma digit_char_props:
  assumes "d < 10"
  shows "is_digit (digit_char d)" "digit_val (digit_char d) = d" "\<not> is_space (digit_char d)"
    "digit_char d \<noteq> CHR ''-''" "digit_char d \<noteq> CHR ''+''"
proof -
  have a: "(of_char (digit_char d) :: nat) = 48 + d" using assms by (simp add: digit_char_def)
  show "is_digit (digit_char d)" using assms by (simp add: is_digit_def a)
  show "digit_val (digit_char d) = d" by (simp add: digit_val_def a)
  show "\<not> is_space (digit_char d)" using assms by (simp add: is_space_def a)
  have "(of_char (digit_char d) :: nat) \<noteq> of_char CHR ''-''" "(of_char (digit_char d) :: nat) \<noteq> of_char CHR ''+''"
    unfolding a by simp_all
  then show "digit_char d \<noteq> CHR ''-''" "digit_char d \<noteq> CHR ''+''" by auto
qed

lemma show_nat_digits: "show_nat n \<noteq> [] \<and> list_all is_digit (show_nat n)"
proof (induction n rule: show_nat.induct)
  case (1 n)
  show ?case
  proof (cases "n < 10")
    case True
    then show ?thesis by (subst (1 2) show_nat.simps) (simp add: digit_char_props)
  next
    case False
    then have "n mod 10 < 10" by simp
    with False 1 show ?thesis by (subst (1 2) show_nat.simps) (simp add: digit_char_props)
  qed
qed

lemma digits_val_snoc: "digits_val (ds @ [c]) = 10 * digits_val ds + digit_val c"
  by (simp add: digits_val_def)

lemma digits_val_show_nat: "digits_val (show_nat n) = n"
proof (induction n rule: show_nat.induct)
  case (1 n)
  show ?case
  proof (cases "n < 10")
    case True
    then show ?thesis by (subst show_nat.simps) (simp add: digits_val_def digit_char_props)
  next
    case False
    then have "n mod 10 < 10" by simp
    with False 1 show ?thesis
      by (subst show_nat.simps) (simp add: digits_val_snoc digit_char_props)
  qed
qed

lemma show_nat_hd:
  "is_digit (hd (show_nat n))" "\<not> is_space (hd (show_nat n))"
  "hd (show_nat n) \<noteq> CHR ''-''" "hd (show_nat n) \<noteq> CHR ''+''"
proof -
  have "\<exists>d<10. hd (show_nat n) = digit_char d"
  proof (induction n rule: show_nat.induct)
    case (1 n)
    show ?case
    proof (cases "n < 10")
      case True
      then show ?thesis by (subst show_nat.simps) auto
    next
      case False
      with 1 show ?thesis using show_nat_digits [of "n div 10"]
        by (subst show_nat.simps) simp
    qed
  qed
  then obtain d where "d < 10" "hd (show_nat n) = digit_char d" by blast
  then show "is_digit (hd (show_nat n))" "\<not> is_space (hd (show_nat n))"
    "hd (show_nat n) \<noteq> CHR ''-''" "hd (show_nat n) \<noteq> CHR ''+''"
    by (simp_all add: digit_char_props)
qed

lemma dropWhile_spaces: "list_all is_space ws \<Longrightarrow> s \<noteq> [] \<Longrightarrow> \<not> is_space (hd s) \<Longrightarrow> dropWhile is_space (ws @ s) = s"
  by (cases s) (simp_all add: dropWhile_append2 list_all_iff)

lemma rd_int_show_nat:
  assumes ws: "list_all is_space ws" and c: "\<not> is_digit c" and n: "int n \<le> INT_MAX"
  shows "rd_int \<lparr>buf = ws @ show_nat n @ c # rest, failbit = False\<rparr> x
       = (\<lparr>buf = c # rest, failbit = False\<rparr>, int n)"
proof -
  let ?s = "show_nat n @ c # rest"
  have ne: "?s \<noteq> []" by simp
  have hd: "hd ?s = hd (show_nat n)" using show_nat_digits [of n] by simp
  have d: "dropWhile is_space (ws @ ?s) = ?s"
    using ws show_nat_hd(2) [of n] hd by (intro dropWhile_spaces) simp_all
  have t: "takeWhile is_digit ?s = show_nat n" "dropWhile is_digit ?s = c # rest"
    using show_nat_digits [of n] c by (simp_all add: takeWhile_append2 dropWhile_append2 list_all_iff)
  have "0 \<le> int n" by simp
  then have m: "\<not> int n < INT_MIN" by (simp add: INT_MIN_def)
  show ?thesis
    unfolding rd_int_def
    using d t n m hd show_nat_hd(3,4) [of n] show_nat_digits [of n]
    by (simp add: Let_def digits_val_show_nat)
qed

subsection \<open>The text of a matrix\<close>

lemma write_row:
  assumes r: "r < rows m" and wf: "wf_m m"
  shows "foldE (\<lambda>col os. bindE (load (data m) (r * cols m + col)) (\<lambda>v. Inr (os @ showVal v @ '' '')))
           [0..<cols m] os
       = Inr (os @ concat (map (\<lambda>c. showVal (entry m r c) @ '' '') [0..<cols m]))"
proof -
  define P where "P c t \<longleftrightarrow> t = os @ concat (map (\<lambda>c. showVal (entry m r c) @ '' '') [0..<c])" for c t
  have "\<exists>t. foldE (\<lambda>col os. bindE (load (data m) (r * cols m + col)) (\<lambda>v. Inr (os @ showVal v @ '' '')))
           [0..<cols m] os = Inr t \<and> P (cols m) t"
  proof (rule foldE_upt_inv)
    show "P 0 os" by (simp add: P_def)
  next
    fix c t assume c: "c < cols m" and Pt: "P c t"
    have "r * cols m + c < length (data m)" using idx_less [OF r c] wf by (simp add: wf_m_def)
    then show "\<exists>t'. bindE (load (data m) (r * cols m + c)) (\<lambda>v. Inr (t @ showVal v @ '' '')) = Inr t' \<and> P (Suc c) t'"
      using Pt by (simp add: load_Inr P_def entry_def)
  qed
  then show ?thesis by (simp add: P_def)
qed

lemma write_matrix_text:
  assumes wf: "wf_m m"
  shows "write_matrix showVal os m = Inr (os @ matrix_text showVal m)"
proof -
  define hdr where "hdr = os @ show_nat (rows m) @ '' '' @ show_nat (cols m) @ [CHR 0x0A]"
  define P where "P r t \<longleftrightarrow> t = hdr @ concat (map (row_text showVal m) [0..<r])" for r t
  have "\<exists>t. foldE (\<lambda>row os.
              bindE
                (foldE (\<lambda>col os.
                          bindE (load (data m) (row * cols m + col))
                            (\<lambda>v. Inr (os @ showVal v @ '' '')))
                   [0..<cols m] os)
                (\<lambda>os. Inr (os @ [CHR 0x0A])))
       [0..<rows m] hdr = Inr t \<and> P (rows m) t"
  proof (rule foldE_upt_inv)
    show "P 0 hdr" by (simp add: P_def)
  next
    fix r t assume r: "r < rows m" and Pt: "P r t"
    show "\<exists>t'. bindE
                (foldE (\<lambda>col os.
                          bindE (load (data m) (r * cols m + col))
                            (\<lambda>v. Inr (os @ showVal v @ '' '')))
                   [0..<cols m] t)
                (\<lambda>os. Inr (os @ [CHR 0x0A])) = Inr t' \<and> P (Suc r) t'"
      using Pt by (simp add: write_row [OF r wf] P_def row_text_def)
  qed
  then show ?thesis
    by (simp add: write_matrix_def P_def hdr_def matrix_text_def height_def width_def)
qed

lemma take_values_snoc:
  "take_values readVal (Suc n) s =
     (case take_values readVal n s of
        None \<Rightarrow> None
      | Some (vs, r) \<Rightarrow>
          (let t = dropWhile is_space r in
           if t = [] then None
           else (case readVal t of (Some v, rest) \<Rightarrow> Some (vs @ [v], rest) | (None, rest) \<Rightarrow> None)))"
proof (induction n arbitrary: s)
  case 0
  show ?case by (simp add: Let_def split: prod.splits option.splits)
next
  case (Suc n)
  define t where "t = dropWhile is_space s"
  obtain ov rest where rv: "readVal t = (ov, rest)" by (cases "readVal t")
  show ?case
  proof (cases "t = [] \<or> ov = None")
    case True
    then have "take_values readVal (Suc k) s = None" for k
      using rv by (auto simp: t_def [symmetric] Let_def)
    then show ?thesis by simp
  next
    case False
    then obtain v where v: "ov = Some v" and ne: "t \<noteq> []" by auto
    have L: "take_values readVal (Suc k) s
        = (case take_values readVal k rest of None \<Rightarrow> None | Some (vs, r) \<Rightarrow> Some (v # vs, r))" for k
      using rv v ne by (simp add: t_def [symmetric] Let_def)
    show ?thesis
      unfolding L [of "Suc n"] L [of n] Suc.IH [of rest]
      by (cases "take_values readVal n rest") (auto simp: Let_def split: prod.splits option.splits)
  qed
qed

lemma take_values_length: "take_values readVal n s = Some (vs, r) \<Longrightarrow> length vs = n"
  by (induction n arbitrary: s vs r)
     (auto simp: Let_def split: if_splits prod.splits option.splits)

lemma holds_values_iff: "holds_values readVal n s \<longleftrightarrow> take_values readVal n s \<noteq> None"
  by (induction n arbitrary: s) (auto simp: Let_def split: prod.splits option.splits)

lemma values_read_snoc:
  "values_read readVal (Suc n) s =
     (case take_values readVal n s of
        None \<Rightarrow> values_read readVal n s
      | Some (vs, r) \<Rightarrow>
          (let t = dropWhile is_space r in
           if t = [] then vs
           else (case readVal t of (Some v, rest) \<Rightarrow> vs @ [v] | (None, rest) \<Rightarrow> vs)))"
proof (induction n arbitrary: s)
  case 0
  show ?case by (simp add: Let_def split: prod.splits option.splits)
next
  case (Suc n)
  define t where "t = dropWhile is_space s"
  obtain ov rest where rv: "readVal t = (ov, rest)" by (cases "readVal t")
  show ?case
  proof (cases "t = [] \<or> ov = None")
    case True
    then have "take_values readVal (Suc k) s = None" "values_read readVal (Suc k) s = []" for k
      using rv by (auto simp: t_def [symmetric] Let_def)
    then show ?thesis by simp
  next
    case False
    then obtain v where v: "ov = Some v" and ne: "t \<noteq> []" by auto
    have L: "take_values readVal (Suc k) s
        = (case take_values readVal k rest of None \<Rightarrow> None | Some (vs, r) \<Rightarrow> Some (v # vs, r))" for k
      using rv v ne by (simp add: t_def [symmetric] Let_def)
    have V: "values_read readVal (Suc k) s = v # values_read readVal k rest" for k
      using rv v ne by (simp add: t_def [symmetric] Let_def)
    show ?thesis
      unfolding V [of "Suc n"] V [of n] L [of n] Suc.IH [of rest]
      by (cases "take_values readVal n rest") (auto simp: Let_def split: prod.splits option.splits)
  qed
qed

lemma values_read_take: "take_values readVal n s = Some (vs, r) \<Longrightarrow> values_read readVal n s = vs"
  by (induction n arbitrary: s vs r)
     (auto simp: Let_def split: if_splits prod.splits option.splits)

lemma values_read_short: "take_values readVal n s = None \<Longrightarrow> length (values_read readVal n s) < n"
  by (induction n arbitrary: s)
     (auto simp: Let_def split: if_splits prod.splits option.splits)

subsection \<open>The loops of the extraction operator\<close>

lemma read_cell:
  fixes st :: "istream \<times> 'a::zero Matrix"
  assumes k: "k < R * C" and inv: "cells_inv readVal s0 R C k st"
  shows "\<exists>st'. (case st of (ist, matrix) \<Rightarrow>
            bindE (load (data matrix) k) (\<lambda>old.
              let (ist, v) = rd_val readVal ist old in
              bindE (store (data matrix) k v) (\<lambda>d. Inr (ist, matrix\<lparr>data := d\<rparr>)))) = Inr st'
          \<and> cells_inv readVal s0 R C (Suc k) st'"
proof -
  obtain ist m where st: "st = (ist, m)" by (cases st)
  have m: "rows m = R" "cols m = C" "length (data m) = R * C"
    using inv unfolding cells_inv_def st snd_conv by blast+
  have kl: "k < length (data m)" using k m by simp
  obtain ist' v where rd: "rd_val readVal ist (data m ! k) = (ist', v)"
    by (cases "rd_val readVal ist (data m ! k)")
  have res: "(case st of (ist, matrix) \<Rightarrow>
            bindE (load (data matrix) k) (\<lambda>old.
              let (ist, v) = rd_val readVal ist old in
              bindE (store (data matrix) k v) (\<lambda>d. Inr (ist, matrix\<lparr>data := d\<rparr>))))
          = Inr (ist', m\<lparr>data := (data m)[k := v]\<rparr>)"
    using kl rd by (simp add: st load_Inr store_Inr)
  have dm: "data m = values_read readVal k s0 @ replicate (R * C - length (values_read readVal k s0)) 0"
    using inv unfolding cells_inv_def st snd_conv by blast
  have "cells_inv readVal s0 R C (Suc k) (ist', m\<lparr>data := (data m)[k := v]\<rparr>)"
  proof (cases "take_values readVal k s0")
    case None
    then have f: "failbit ist" using inv by (simp add: cells_inv_def st)
    then have "ist' = ist" "v = data m ! k" using rd by (simp_all add: rd_val_def)
    moreover have "take_values readVal (Suc k) s0 = None"
      by (subst take_values_snoc) (simp add: None)
    moreover have "values_read readVal (Suc k) s0 = values_read readVal k s0"
      by (subst values_read_snoc) (simp add: None)
    ultimately show ?thesis
      using f m dm by (simp add: cells_inv_def del: take_values.simps values_read.simps)
  next
    case (Some p)
    obtain vs r where p: "p = (vs, r)" by (cases p)
    have i: "ist = \<lparr>buf = r, failbit = False\<rparr>"
      using inv Some p by (simp add: cells_inv_def st)
    have vs: "values_read readVal k s0 = vs" "length vs = k"
      using Some p values_read_take [of readVal k s0 vs r] take_values_length [of readVal k s0 vs r]
      by simp_all
    have more: "R * C - k = Suc (R * C - Suc k)" using k by simp
    have dv: "data m = vs @ 0 # replicate (R * C - Suc k) 0"
      using dm vs more by simp
    then have old: "data m ! k = 0" using vs(2) by (simp add: nth_append)
    have upd: "(data m)[k := x] = (vs @ [x]) @ replicate (R * C - Suc k) 0" for x
      unfolding dv using vs(2) by (simp add: list_update_append)
    have same: "(data m)[k := 0] = vs @ replicate (R * C - k) 0"
      using upd [of 0] more by simp
    define t where "t = dropWhile is_space r"
    obtain ov rest where rv: "readVal t = (ov, rest)" by (cases "readVal t")
    have sn: "take_values readVal (Suc k) s0
        = (if t = [] then None
           else (case readVal t of (Some v, rest) \<Rightarrow> Some (vs @ [v], rest) | (None, rest) \<Rightarrow> None))"
      by (subst take_values_snoc) (simp add: Some p t_def Let_def)
    have vn: "values_read readVal (Suc k) s0
        = (if t = [] then vs
           else (case readVal t of (Some v, rest) \<Rightarrow> vs @ [v] | (None, rest) \<Rightarrow> vs))"
      by (subst values_read_snoc) (simp add: Some p t_def Let_def)
    have rdv: "rd_val readVal ist (data m ! k)
        = (if t = [] then (\<lparr>buf = [], failbit = True\<rparr>, data m ! k)
           else (case readVal t of
                   (Some v, rest) \<Rightarrow> (\<lparr>buf = rest, failbit = False\<rparr>, v)
                 | (None, rest) \<Rightarrow> (\<lparr>buf = rest, failbit = True\<rparr>, 0)))"
      by (simp add: rd_val_def i t_def Let_def)
    show ?thesis
    proof (cases "t = [] \<or> ov = None")
      case True
      then have "failbit ist'" "v = 0" using rd rv old unfolding rdv by (auto split: if_splits)
      moreover have "take_values readVal (Suc k) s0 = None"
        using True rv unfolding sn by (auto split: if_splits)
      moreover have "values_read readVal (Suc k) s0 = vs"
        using True rv unfolding vn by (auto split: if_splits)
      ultimately show ?thesis
        using m same vs(2) k by (simp add: cells_inv_def del: take_values.simps values_read.simps)
    next
      case False
      then obtain x where x: "ov = Some x" and ne: "t \<noteq> []" by auto
      have r1: "ist' = \<lparr>buf = rest, failbit = False\<rparr>" "v = x"
        using rd rv x ne unfolding rdv by simp_all
      have tv: "take_values readVal (Suc k) s0 = Some (vs @ [x], rest)"
        using rv x ne unfolding sn by simp
      have vv: "values_read readVal (Suc k) s0 = vs @ [x]"
        using rv x ne unfolding vn by simp
      show ?thesis
        using m tv vv r1 upd [of x] vs(2) k
        by (simp add: cells_inv_def del: take_values.simps values_read.simps)
    qed
  qed
  with res show ?thesis by blast
qed

lemma read_cells:
  fixes ist0 :: istream
  assumes nf: "\<not> failbit ist0"
  shows "\<exists>st. foldE (\<lambda>row. foldE (\<lambda>col (ist, matrix).
               bindE (load (data matrix) (row * cols matrix + col)) (\<lambda>old.
                 let (ist, v) = rd_val readVal ist old in
                 bindE (store (data matrix) (row * cols matrix + col) v) (\<lambda>d.
                   Inr (ist, matrix\<lparr>data := d\<rparr>))))
             [0..<C])
        [0..<R] (ist0, Matrix_ctor R C (0::'a::zero)) = Inr st
     \<and> cells_inv readVal (buf ist0) R C (R * C) st"
proof (rule foldE_upt_inv [where P = "\<lambda>r st. cells_inv readVal (buf ist0) R C (r * C) st", simplified mult.commute [of R C], simplified mult.commute [of C R]])
  show "cells_inv readVal (buf ist0) R C (0 * C) (ist0, Matrix_ctor R C 0)"
    using nf by (simp add: cells_inv_def Matrix_ctor_def)
next
  fix r and st :: "istream \<times> 'a Matrix"
  assume r: "r < R" and inv: "cells_inv readVal (buf ist0) R C (r * C) st"
  have "\<exists>st'. foldE (\<lambda>col (ist, matrix).
               bindE (load (data matrix) (r * cols matrix + col)) (\<lambda>old.
                 let (ist, v) = rd_val readVal ist old in
                 bindE (store (data matrix) (r * cols matrix + col) v) (\<lambda>d.
                   Inr (ist, matrix\<lparr>data := d\<rparr>))))
             [0..<C] st = Inr st' \<and> cells_inv readVal (buf ist0) R C (r * C + C) st'"
  proof (rule foldE_upt_inv [where P = "\<lambda>c st. cells_inv readVal (buf ist0) R C (r * C + c) st"])
    show "cells_inv readVal (buf ist0) R C (r * C + 0) st" using inv by simp
  next
    fix c and t :: "istream \<times> 'a Matrix"
    assume c: "c < C" and it: "cells_inv readVal (buf ist0) R C (r * C + c) t"
    have k: "r * C + c < R * C" by (rule idx_less [OF r c])
    have cm: "cols (snd t) = C" using it by (simp add: cells_inv_def)
    from read_cell [OF k it] cm
    show "\<exists>t'. (case t of (ist, matrix) \<Rightarrow>
               bindE (load (data matrix) (r * cols matrix + c)) (\<lambda>old.
                 let (ist, v) = rd_val readVal ist old in
                 bindE (store (data matrix) (r * cols matrix + c) v) (\<lambda>d.
                   Inr (ist, matrix\<lparr>data := d\<rparr>)))) = Inr t'
             \<and> cells_inv readVal (buf ist0) R C (r * C + Suc c) t'"
      by (cases t) simp
  qed
  then show "\<exists>st'. foldE (\<lambda>col (ist, matrix).
               bindE (load (data matrix) (r * cols matrix + col)) (\<lambda>old.
                 let (ist, v) = rd_val readVal ist old in
                 bindE (store (data matrix) (r * cols matrix + col) v) (\<lambda>d.
                   Inr (ist, matrix\<lparr>data := d\<rparr>))))
             [0..<C] st = Inr st' \<and> cells_inv readVal (buf ist0) R C (Suc r * C) st'"
    by (simp add: add.commute)
qed

lemma rd_int_failed: "failbit ist \<Longrightarrow> rd_int ist x = (ist, x)"
  by (simp add: rd_int_def)

lemma rd_val_failed: "failbit ist \<Longrightarrow> rd_val readVal ist x = (ist, x)"
  by (simp add: rd_val_def)

lemma rd_int_stream_indep: "fst (rd_int ist x) = fst (rd_int ist y)"
  if "\<not> failbit ist"
  using that by (simp add: rd_int_def Let_def)

lemma rd_int_value_indep:
  "\<not> failbit ist \<Longrightarrow> \<not> failbit (fst (rd_int ist x)) \<Longrightarrow> snd (rd_int ist x) = snd (rd_int ist y)"
  by (auto simp: rd_int_def Let_def split: if_splits)

lemma rd_int_nonnumeric:
  assumes "\<not> failbit ist" "\<not> starts_numeric (buf ist)"
  shows "failbit (fst (rd_int ist x))"
proof -
  define s where "s = dropWhile is_space (buf ist)"
  define s1 where "s1 = (if hd s = CHR ''-'' \<or> hd s = CHR ''+'' then tl s else s)"
  show ?thesis
  proof (cases "s = []")
    case True
    then show ?thesis using assms(1) by (simp add: rd_int_def s_def)
  next
    case False
    from assms(2) False have "s1 = [] \<or> \<not> is_digit (hd s1)"
      by (auto simp: starts_numeric_def s_def s1_def Let_def split: if_splits)
    then have "takeWhile is_digit s1 = []" by (cases s1) auto
    then show ?thesis
      using assms(1) False by (simp add: rd_int_def s_def [symmetric] s1_def [symmetric] Let_def)
  qed
qed

lemma read_cells_failed:
  fixes ist0 :: istream
  assumes f: "failbit ist0"
  shows "\<exists>st. foldE (\<lambda>row. foldE (\<lambda>col (ist, matrix).
               bindE (load (data matrix) (row * cols matrix + col)) (\<lambda>old.
                 let (ist, v) = rd_val readVal ist old in
                 bindE (store (data matrix) (row * cols matrix + col) v) (\<lambda>d.
                   Inr (ist, matrix\<lparr>data := d\<rparr>))))
             [0..<C])
        [0..<R] (ist0, Matrix_ctor R C (0::'a::zero)) = Inr st
     \<and> failbit (fst st) \<and> snd st = Matrix_ctor R C 0"
proof -
  define Q where "Q st \<longleftrightarrow> failbit (fst st) \<and> snd st = Matrix_ctor R C 0"
    for st :: "istream \<times> 'a Matrix"
  have "\<exists>st. foldE (\<lambda>row. foldE (\<lambda>col (ist, matrix).
               bindE (load (data matrix) (row * cols matrix + col)) (\<lambda>old.
                 let (ist, v) = rd_val readVal ist old in
                 bindE (store (data matrix) (row * cols matrix + col) v) (\<lambda>d.
                   Inr (ist, matrix\<lparr>data := d\<rparr>))))
             [0..<C])
        [0..<R] (ist0, Matrix_ctor R C (0::'a::zero)) = Inr st \<and> Q st"
  proof (rule foldE_upt_inv [where P = "\<lambda>r. Q"])
    show "Q (ist0, Matrix_ctor R C 0)" using f by (simp add: Q_def Matrix_ctor_def)
  next
    fix r and st :: "istream \<times> 'a Matrix" assume r: "r < R" and q: "Q st"
    show "\<exists>st'. foldE (\<lambda>col (ist, matrix).
               bindE (load (data matrix) (r * cols matrix + col)) (\<lambda>old.
                 let (ist, v) = rd_val readVal ist old in
                 bindE (store (data matrix) (r * cols matrix + col) v) (\<lambda>d.
                   Inr (ist, matrix\<lparr>data := d\<rparr>))))
             [0..<C] st = Inr st' \<and> Q st'"
    proof (rule foldE_upt_inv [where P = "\<lambda>c. Q"])
      show "Q st" by (rule q)
    next
      fix c and t :: "istream \<times> 'a Matrix" assume c: "c < C" and qt: "Q t"
      obtain ist m where t: "t = (ist, m)" by (cases t)
      have k: "r * cols m + c < length (data m)"
        using idx_less [OF r c] qt by (simp add: Q_def t Matrix_ctor_def)
      have "failbit ist" using qt by (simp add: Q_def t)
      then show "\<exists>t'. (case t of (ist, matrix) \<Rightarrow>
               bindE (load (data matrix) (r * cols matrix + c)) (\<lambda>old.
                 let (ist, v) = rd_val readVal ist old in
                 bindE (store (data matrix) (r * cols matrix + c) v) (\<lambda>d.
                   Inr (ist, matrix\<lparr>data := d\<rparr>)))) = Inr t' \<and> Q t'"
        using k qt by (simp add: t load_Inr store_Inr rd_val_failed Q_def)
    qed
  qed
  then show ?thesis by (simp add: Q_def)
qed

lemma Matrix_ctor_sel: "rows (Matrix_ctor r c v) = r" "cols (Matrix_ctor r c v) = c"
  by (simp_all add: Matrix_ctor_def)

lemma read_matrix_outcome:
  fixes readVal :: "string \<Rightarrow> 'a::zero option \<times> string"
  assumes h: "rd_int ist (fst junk) = (ist1, h)" and w: "rd_int ist1 (snd junk) = (ist2, w)"
  shows "\<exists>ist' m. read_matrix readVal junk ist = Inr (ist', m)
     \<and> rows m = size_t_of_int h \<and> cols m = size_t_of_int w \<and> wf_m m
     \<and> (if failbit ist2
         then failbit ist' \<and> data m = replicate (size_t_of_int h * size_t_of_int w) 0
         else data m
                = values_read readVal (size_t_of_int h * size_t_of_int w) (buf ist2)
                  @ replicate (size_t_of_int h * size_t_of_int w
                      - length (values_read readVal (size_t_of_int h * size_t_of_int w) (buf ist2))) 0
            \<and> (case take_values readVal (size_t_of_int h * size_t_of_int w) (buf ist2) of
                 None \<Rightarrow> failbit ist'
               | Some (vs, r) \<Rightarrow> ist' = \<lparr>buf = r, failbit = False\<rparr> \<and> data m = vs))"
proof (cases "failbit ist2")
  case True
  from read_cells_failed [OF True, of readVal "size_t_of_int w" "size_t_of_int h"]
  obtain st where st: "foldE (\<lambda>row. foldE (\<lambda>col (ist, matrix).
               bindE (load (data matrix) (row * cols matrix + col)) (\<lambda>old.
                 let (ist, v) = rd_val readVal ist old in
                 bindE (store (data matrix) (row * cols matrix + col) v) (\<lambda>d.
                   Inr (ist, matrix\<lparr>data := d\<rparr>))))
             [0..<size_t_of_int w])
        [0..<size_t_of_int h] (ist2, Matrix_ctor (size_t_of_int h) (size_t_of_int w) 0) = Inr st"
    "failbit (fst st)" "snd st = Matrix_ctor (size_t_of_int h) (size_t_of_int w) 0" by blast
  show ?thesis
    using st True h w
    by (cases st) (simp add: read_matrix_def Let_def Matrix_ctor_def wf_m_def)
next
  case False
  define N where "N = size_t_of_int h * size_t_of_int w"
  from read_cells [OF False, of readVal "size_t_of_int w" "size_t_of_int h"]
  obtain st where st: "foldE (\<lambda>row. foldE (\<lambda>col (ist, matrix).
               bindE (load (data matrix) (row * cols matrix + col)) (\<lambda>old.
                 let (ist, v) = rd_val readVal ist old in
                 bindE (store (data matrix) (row * cols matrix + col) v) (\<lambda>d.
                   Inr (ist, matrix\<lparr>data := d\<rparr>))))
             [0..<size_t_of_int w])
        [0..<size_t_of_int h] (ist2, Matrix_ctor (size_t_of_int h) (size_t_of_int w) 0) = Inr st"
    "cells_inv readVal (buf ist2) (size_t_of_int h) (size_t_of_int w) N st"
    unfolding N_def by blast
  obtain ist' m where sm: "st = (ist', m)" by (cases st)
  have c: "rows m = size_t_of_int h" "cols m = size_t_of_int w" "length (data m) = N"
    "data m = values_read readVal N (buf ist2) @ replicate (N - length (values_read readVal N (buf ist2))) 0"
    "case take_values readVal N (buf ist2) of None \<Rightarrow> failbit ist'
       | Some (vs, r) \<Rightarrow> ist' = \<lparr>buf = r, failbit = False\<rparr>"
    using st(2) unfolding cells_inv_def sm snd_conv fst_conv N_def by blast+
  have full: "data m = vs" if "take_values readVal N (buf ist2) = Some (vs, r)" for vs r
    using c(4) values_read_take [OF that] take_values_length [OF that] by simp
  have rm: "read_matrix readVal junk ist = Inr (ist', m)"
    using st(1) h w by (simp add: read_matrix_def Let_def sm Matrix_ctor_sel)
  have "wf_m m" using c(1,2,3) by (simp add: wf_m_def N_def)
  moreover have "case take_values readVal N (buf ist2) of None \<Rightarrow> failbit ist'
       | Some (vs, r) \<Rightarrow> ist' = \<lparr>buf = r, failbit = False\<rparr> \<and> data m = vs"
    using c(5) full by (auto split: option.splits)
  ultimately show ?thesis
    using rm c(1,2,4) False unfolding N_def by auto
qed

subsection \<open>A stream that cannot be read\<close>

lemma rd_int_range:
  "\<not> failbit ist \<Longrightarrow> \<not> failbit (fst (rd_int ist x)) \<Longrightarrow>
     INT_MIN \<le> snd (rd_int ist x) \<and> snd (rd_int ist x) \<le> INT_MAX"
  by (auto simp: rd_int_def Let_def split: if_splits)

lemma read_matrix_fails_aux:
  fixes readVal :: "string \<Rightarrow> 'a::zero option \<times> string"
  assumes nf: "\<not> failbit ist" and bad: "malformed_header ist \<or> truncated readVal ist"
  shows "\<exists>ist' m. read_matrix readVal junk ist = Inr (ist', m) \<and> failbit ist' \<and> wf_m m
     \<and> (malformed_header ist \<longrightarrow> data m = replicate (rows m * cols m) 0)
     \<and> (truncated readVal ist \<longrightarrow>
          (let (ist1, h) = rd_int ist 0; (ist2, w) = rd_int ist1 0;
               vs = values_read readVal (nat h * nat w) (buf ist2)
           in rows m = nat h \<and> cols m = nat w \<and> length vs < nat h * nat w
              \<and> data m = vs @ replicate (nat h * nat w - length vs) 0))"
proof -
  obtain ist1 h where h: "rd_int ist (fst junk) = (ist1, h)" by (cases "rd_int ist (fst junk)")
  obtain ist2 w where w: "rd_int ist1 (snd junk) = (ist2, w)" by (cases "rd_int ist1 (snd junk)")
  define N where "N = size_t_of_int h * size_t_of_int w"
  from read_matrix_outcome [OF h w, of readVal] obtain ist' m where
    r: "read_matrix readVal junk ist = Inr (ist', m)"
    and sh: "rows m = size_t_of_int h" "cols m = size_t_of_int w" "wf_m m"
    and o: "if failbit ist2 then failbit ist' \<and> data m = replicate N 0
         else data m = values_read readVal N (buf ist2)
                  @ replicate (N - length (values_read readVal N (buf ist2))) 0
            \<and> (case take_values readVal N (buf ist2) of
                 None \<Rightarrow> failbit ist'
               | Some (vs, r) \<Rightarrow> ist' = \<lparr>buf = r, failbit = False\<rparr> \<and> data m = vs)"
    unfolding N_def by blast
  have s1: "fst (rd_int ist 0) = ist1" using rd_int_stream_indep [OF nf, of 0 "fst junk"] h by simp
  have f12: "failbit ist1 \<Longrightarrow> failbit ist2" using w by (simp add: rd_int_failed)
  have M: "failbit ist2" if "malformed_header ist"
  proof -
    from that consider "\<not> starts_numeric (buf ist)" | "\<not> starts_numeric (buf ist1)"
      by (auto simp: malformed_header_def s1)
    then show ?thesis
    proof cases
      case 1
      then have "failbit ist1" using rd_int_nonnumeric [OF nf, of "fst junk"] h by simp
      then show ?thesis by (rule f12)
    next
      case 2
      show ?thesis
      proof (cases "failbit ist1")
        case True
        then show ?thesis by (rule f12)
      next
        case False
        then show ?thesis using rd_int_nonnumeric [OF False 2, of "snd junk"] w by simp
      qed
    qed
  qed
  have T: "\<not> failbit ist2" "rd_int ist 0 = (ist1, h)" "rd_int ist1 0 = (ist2, w)"
      "N = nat h * nat w" "size_t_of_int h = nat h" "size_t_of_int w = nat w"
      "take_values readVal N (buf ist2) = None"
    if t: "truncated readVal ist"
  proof -
    obtain a1 h' where a1: "rd_int ist 0 = (a1, h')" by (cases "rd_int ist 0")
    obtain a2 w' where a2: "rd_int a1 0 = (a2, w')" by (cases "rd_int a1 0")
    from t a1 a2 have tr: "\<not> failbit a2" "0 \<le> h'" "0 \<le> w'"
      "\<not> holds_values readVal (nat h' * nat w') (buf a2)"
      by (simp_all add: truncated_def)
    have e1: "a1 = ist1" using s1 a1 by simp
    have nf1: "\<not> failbit ist1" using tr(1) a2 e1 by (auto simp: rd_int_failed)
    have hh: "h' = h" using rd_int_value_indep [OF nf, of 0 "fst junk"] a1 h e1 nf1 by simp
    have e2: "a2 = ist2" using rd_int_stream_indep [OF nf1, of 0 "snd junk"] a2 w e1 by simp
    have ww: "w' = w" using rd_int_value_indep [OF nf1, of 0 "snd junk"] a2 w e1 e2 tr(1) by simp
    have "h \<le> INT_MAX" "w \<le> INT_MAX"
      using rd_int_range [OF nf, of "fst junk"] rd_int_range [OF nf1, of "snd junk"] h w nf1 tr(1) e2
      by simp_all
    then have sz: "size_t_of_int h = nat h" "size_t_of_int w = nat w"
      using tr(2,3) hh ww by (simp_all add: size_t_of_int_nat)
    have tv: "take_values readVal (nat h * nat w) (buf ist2) = None"
      using tr(4) hh ww e2 unfolding holds_values_iff
      by (cases "take_values readVal (nat h * nat w) (buf ist2)") auto
    show "\<not> failbit ist2" using tr(1) e2 by simp
    show "rd_int ist 0 = (ist1, h)" using a1 e1 hh by simp
    show "rd_int ist1 0 = (ist2, w)" using a2 e1 e2 ww by simp
    show "N = nat h * nat w" using sz by (simp add: N_def)
    show "size_t_of_int h = nat h" "size_t_of_int w = nat w" by (rule sz)+
    show "take_values readVal N (buf ist2) = None" using tv sz by (simp add: N_def)
  qed
  have "failbit ist'"
    using bad
  proof
    assume "malformed_header ist"
    with M o show ?thesis by simp
  next
    assume tr: "truncated readVal ist"
    from o T(1) [OF tr] have "case take_values readVal N (buf ist2) of
                 None \<Rightarrow> failbit ist'
               | Some (vs, r) \<Rightarrow> ist' = \<lparr>buf = r, failbit = False\<rparr> \<and> data m = vs"
      by simp
    then show ?thesis unfolding T(7) [OF tr] by simp
  qed
  moreover have "data m = replicate (rows m * cols m) 0" if "malformed_header ist"
    using M [OF that] o sh by (simp add: N_def)
  moreover have "(let (ist1, h) = rd_int ist 0; (ist2, w) = rd_int ist1 0;
               vs = values_read readVal (nat h * nat w) (buf ist2)
           in rows m = nat h \<and> cols m = nat w \<and> length vs < nat h * nat w
              \<and> data m = vs @ replicate (nat h * nat w - length vs) 0)"
    if "truncated readVal ist"
  proof -
    note t = T [OF that]
    have a: "length (values_read readVal N (buf ist2)) < N"
      using t(7) by (rule values_read_short)
    have b: "data m = values_read readVal N (buf ist2)
                  @ replicate (N - length (values_read readVal N (buf ist2))) 0"
      using t(1) o by simp
    show ?thesis
      using a b sh(1,2) unfolding t(4) t(5,6) by (simp add: Let_def t(2,3))
  qed
  ultimately show ?thesis using r sh(3) by blast
qed

subsection \<open>Reading back what was written\<close>

lemma take_values_add:
  "take_values readVal (a + b) s =
     (case take_values readVal a s of
        None \<Rightarrow> None
      | Some (vs, r) \<Rightarrow>
          (case take_values readVal b r of
             None \<Rightarrow> None
           | Some (vs', r') \<Rightarrow> Some (vs @ vs', r')))"
proof (induction b)
  case 0
  show ?case by (simp split: option.splits)
next
  case (Suc b)
  have "take_values readVal (a + Suc b) s = take_values readVal (Suc (a + b)) s" by simp
  also have "\<dots> = (case take_values readVal (a + b) s of
        None \<Rightarrow> None
      | Some (vs, r) \<Rightarrow>
          (let t = dropWhile is_space r in
           if t = [] then None
           else (case readVal t of (Some v, rest) \<Rightarrow> Some (vs @ [v], rest) | (None, rest) \<Rightarrow> None)))"
    by (rule take_values_snoc)
  finally show ?case
    unfolding Suc take_values_snoc [of readVal b]
    by (auto simp: Let_def split: option.splits prod.splits)
qed

lemma newline_space: "is_space (CHR 0x0A)" and blank_space: "is_space CHR '' ''"
  by (simp_all add: is_space_def)

lemma blank_no_digit: "\<not> is_digit CHR '' ''" and newline_no_digit: "\<not> is_digit (CHR 0x0A)"
  by (simp_all add: is_digit_def)

lemma take_values_step:
  assumes "take_values readVal n s = Some (vs, r)" "dropWhile is_space r = t" "t \<noteq> []"
    "readVal t = (Some v, rest)"
  shows "take_values readVal (Suc n) s = Some (vs @ [v], rest)"
  using assms by (subst take_values_snoc) (auto simp: Let_def)

lemma take_values_join:
  assumes "take_values readVal a s = Some (vs, r)" "take_values readVal b r = Some (vs', r')"
  shows "take_values readVal (a + b) s = Some (vs @ vs', r')"
  using assms by (simp add: take_values_add)

lemma take_values_row:
  assumes ws: "list_all is_space ws" and rt: "\<forall>c<C. reads_back showVal readVal (f c) (g c)"
  shows "\<exists>ws'. list_all is_space ws'
     \<and> take_values readVal C (ws @ concat (map (\<lambda>c. showVal (f c) @ '' '') [0..<C]) @ rest)
         = Some (map g [0..<C], ws' @ rest)"
  using rt
proof (induction C arbitrary: rest)
  case 0
  show ?case using ws by auto
next
  case (Suc C)
  let ?v = "showVal (f C)"
  from Suc.IH [of "?v @ '' '' @ rest"] Suc.prems obtain ws1 where
    ws1: "list_all is_space ws1"
    "take_values readVal C (ws @ concat (map (\<lambda>c. showVal (f c) @ '' '') [0..<C]) @ ?v @ '' '' @ rest)
       = Some (map g [0..<C], ws1 @ ?v @ '' '' @ rest)"
    by auto
  have r: "reads_back showVal readVal (f C) (g C)" using Suc.prems by simp
  have d: "dropWhile is_space (ws1 @ ?v @ '' '' @ rest) = ?v @ '' '' @ rest"
    using ws1(1) r by (intro dropWhile_spaces) (auto simp: reads_back_def)
  have ne: "?v @ '' '' @ rest \<noteq> []" by simp
  have rv: "readVal (?v @ '' '' @ rest) = (Some (g C), '' '' @ rest)"
    using r by (simp add: reads_back_def)
  have tx: "ws @ concat (map (\<lambda>c. showVal (f c) @ '' '') [0..<Suc C]) @ rest
      = ws @ concat (map (\<lambda>c. showVal (f c) @ '' '') [0..<C]) @ ?v @ '' '' @ rest"
    by simp
  have "take_values readVal (Suc C) (ws @ concat (map (\<lambda>c. showVal (f c) @ '' '') [0..<Suc C]) @ rest)
      = Some (map g [0..<C] @ [g C], '' '' @ rest)"
    unfolding tx by (rule take_values_step [OF ws1(2) d ne rv])
  then show ?case using blank_space by (intro exI [of _ "'' ''"]) simp
qed

lemma take_values_rows:
  assumes ws: "list_all is_space ws"
    and rt: "\<forall>r<R. \<forall>c<cols m. reads_back showVal readVal (entry m r c) (back (entry m r c))"
  shows "\<exists>ws'. list_all is_space ws'
     \<and> take_values readVal (R * cols m) (ws @ concat (map (row_text showVal m) [0..<R]) @ rest)
         = Some (concat (map (\<lambda>r. map (\<lambda>c. back (entry m r c)) [0..<cols m]) [0..<R]), ws' @ rest)"
  using rt
proof (induction R arbitrary: rest)
  case 0
  show ?case using ws by auto
next
  case (Suc R)
  from Suc.IH [of "row_text showVal m R @ rest"] Suc.prems obtain ws1 where
    ws1: "list_all is_space ws1"
    "take_values readVal (R * cols m) (ws @ concat (map (row_text showVal m) [0..<R]) @ row_text showVal m R @ rest)
       = Some (concat (map (\<lambda>r. map (\<lambda>c. back (entry m r c)) [0..<cols m]) [0..<R]),
               ws1 @ row_text showVal m R @ rest)"
    by auto
  have "\<forall>c<cols m. reads_back showVal readVal (entry m R c) (back (entry m R c))"
    using Suc.prems by simp
  from take_values_row [OF ws1(1) this, of "[CHR 0x0A] @ rest"] obtain ws2 where
    ws2: "list_all is_space ws2"
    "take_values readVal (cols m) (ws1 @ row_text showVal m R @ rest)
       = Some (map (\<lambda>c. back (entry m R c)) [0..<cols m], ws2 @ [CHR 0x0A] @ rest)"
    by (auto simp: row_text_def)
  have "take_values readVal (Suc R * cols m) (ws @ concat (map (row_text showVal m) [0..<Suc R]) @ rest)
      = Some (concat (map (\<lambda>r. map (\<lambda>c. back (entry m r c)) [0..<cols m]) [0..<Suc R]),
              (ws2 @ [CHR 0x0A]) @ rest)"
  proof -
    have e: "Suc R * cols m = R * cols m + cols m" by simp
    have tx: "ws @ concat (map (row_text showVal m) [0..<Suc R]) @ rest
        = ws @ concat (map (row_text showVal m) [0..<R]) @ row_text showVal m R @ rest"
      by simp
    show ?thesis
      unfolding e tx using take_values_join [OF ws1(2) ws2(2)] by simp
  qed
  moreover have "list_all is_space (ws2 @ [CHR 0x0A])" using ws2(1) newline_space by simp
  ultimately show ?case by blast
qed

lemma rows_concat:
  assumes "R * C \<le> length d"
  shows "concat (map (\<lambda>r. map (\<lambda>c. d ! (r * C + c)) [0..<C]) [0..<R]) = take (R * C) d"
  using assms
proof (induction R)
  case 0
  show ?case by simp
next
  case (Suc R)
  have l: "R * C + C \<le> length d" using Suc.prems by simp
  have "map (\<lambda>c. d ! (R * C + c)) [0..<C] = take C (drop (R * C) d)"
    using l by (intro nth_equalityI) simp_all
  moreover have "take (R * C + C) d = take (R * C) d @ take C (drop (R * C) d)"
    by (simp add: take_add)
  ultimately show ?case using Suc.IH l by (simp add: add.commute)
qed

lemma matrix_entries: "wf_m m \<Longrightarrow> concat (map (\<lambda>r. map (entry m r) [0..<cols m]) [0..<rows m]) = data m"
proof -
  assume "wf_m m"
  then have "concat (map (\<lambda>r. map (\<lambda>c. data m ! (r * cols m + c)) [0..<cols m]) [0..<rows m]) = data m"
    using rows_concat [of "rows m" "cols m" "data m"] by (simp add: wf_m_def)
  moreover have "entry m r = (\<lambda>c. data m ! (r * cols m + c))" for r
    by (rule ext) (simp add: entry_def)
  ultimately show ?thesis by simp
qed

lemma matrix_entries_map:
  assumes "wf_m m"
  shows "concat (map (\<lambda>r. map (\<lambda>c. back (entry m r c)) [0..<cols m]) [0..<rows m])
       = map back (data m)"
proof -
  have "map back (concat (map (\<lambda>r. map (entry m r) [0..<cols m]) [0..<rows m])) = map back (data m)"
    using matrix_entries [OF assms] by simp
  then show ?thesis by (simp add: map_concat comp_def)
qed

lemma size_t_of_int_of_nat: "int n \<le> INT_MAX \<Longrightarrow> size_t_of_int (int n) = n"
  by (simp add: size_t_of_int_def INT_MAX_def)

lemma size_t_of_int_range:
  assumes "INT_MIN \<le> h" "h \<le> INT_MAX"
  shows "size_t_of_int h \<noteq> 2147483648"
proof (cases "0 \<le> h")
  case True
  then have "size_t_of_int h = nat h" using assms by (simp add: size_t_of_int_nat)
  then show ?thesis using assms by (simp add: INT_MAX_def)
next
  case False
  then have "(h + 2 ^ 64) mod 2 ^ 64 = h + 2 ^ 64"
    using assms by (intro mod_pos_pos_trivial) (simp_all add: INT_MIN_def)
  then have "h mod 2 ^ 64 = h + 2 ^ 64" by simp
  then show ?thesis using assms False by (simp add: size_t_of_int_def INT_MIN_def)
qed

lemma read_matrix_dims_int:
  fixes readVal :: "string \<Rightarrow> 'a::zero option \<times> string"
  assumes nf: "\<not> failbit ist" and r: "read_matrix readVal junk ist = Inr (ist', m)"
    and ok: "\<not> failbit ist'"
  shows "rows m \<noteq> 2147483648 \<and> cols m \<noteq> 2147483648"
proof -
  obtain ist1 h where h: "rd_int ist (fst junk) = (ist1, h)" by (cases "rd_int ist (fst junk)")
  obtain ist2 w where w: "rd_int ist1 (snd junk) = (ist2, w)" by (cases "rd_int ist1 (snd junk)")
  from read_matrix_outcome [OF h w, of readVal] r ok
  have sh: "rows m = size_t_of_int h" "cols m = size_t_of_int w" and f2: "\<not> failbit ist2"
    by (auto split: if_splits)
  have f1: "\<not> failbit ist1" using f2 w by (auto simp: rd_int_failed)
  have "INT_MIN \<le> h \<and> h \<le> INT_MAX" using rd_int_range [OF nf, of "fst junk"] h f1 by simp
  moreover have "INT_MIN \<le> w \<and> w \<le> INT_MAX" using rd_int_range [OF f1, of "snd junk"] w f2 by simp
  ultimately show ?thesis using sh by (simp add: size_t_of_int_range)
qed

lemma matrix_roundtrip_aux:
  fixes M :: "'a::zero Matrix"
  assumes wf: "wf_m M" and r: "int (rows M) \<le> INT_MAX" and c: "int (cols M) \<le> INT_MAX"
    and rt: "\<forall>v\<in>set (data M). reads_back showVal readVal v (back v)"
  shows "\<exists>text ist'. write_matrix showVal [] M = Inr text
     \<and> read_matrix readVal junk \<lparr>buf = text @ rest, failbit = False\<rparr>
         = Inr (ist', M\<lparr>data := map back (data M)\<rparr>)
     \<and> \<not> failbit ist'"
proof -
  define body where "body = concat (map (row_text showVal M) [0..<rows M])"
  have w: "write_matrix showVal [] M = Inr (matrix_text showVal M)"
    using write_matrix_text [OF wf, of showVal "[]"] by simp
  have tx: "matrix_text showVal M @ rest
      = [] @ show_nat (rows M) @ CHR '' '' # (show_nat (cols M) @ CHR 0x0A # (body @ rest))"
    by (simp add: matrix_text_def body_def)
  have h: "rd_int \<lparr>buf = matrix_text showVal M @ rest, failbit = False\<rparr> (fst junk)
      = (\<lparr>buf = CHR '' '' # (show_nat (cols M) @ CHR 0x0A # (body @ rest)), failbit = False\<rparr>, int (rows M))"
    unfolding tx by (rule rd_int_show_nat) (simp_all add: blank_no_digit r)
  have "rd_int \<lparr>buf = '' '' @ show_nat (cols M) @ CHR 0x0A # (body @ rest), failbit = False\<rparr> (snd junk)
      = (\<lparr>buf = CHR 0x0A # (body @ rest), failbit = False\<rparr>, int (cols M))"
    by (rule rd_int_show_nat) (simp_all add: newline_no_digit blank_space c)
  then have w2: "rd_int \<lparr>buf = CHR '' '' # (show_nat (cols M) @ CHR 0x0A # (body @ rest)), failbit = False\<rparr> (snd junk)
      = (\<lparr>buf = CHR 0x0A # (body @ rest), failbit = False\<rparr>, int (cols M))"
    by simp
  have ent: "\<forall>i<rows M. \<forall>j<cols M. reads_back showVal readVal (entry M i j) (back (entry M i j))"
  proof (intro allI impI)
    fix i j assume "i < rows M" "j < cols M"
    then have "i * cols M + j < length (data M)" using idx_less wf by (simp add: wf_m_def)
    then have "entry M i j \<in> set (data M)" by (simp add: entry_def)
    with rt show "reads_back showVal readVal (entry M i j) (back (entry M i j))" by blast
  qed
  have "list_all is_space [CHR 0x0A]" by (simp add: newline_space)
  from take_values_rows [OF this ent, of rest] obtain ws' where
    tv: "take_values readVal (rows M * cols M) (CHR 0x0A # (body @ rest))
       = Some (map back (data M), ws' @ rest)"
    by (auto simp: body_def matrix_entries_map [OF wf])
  from read_matrix_outcome [OF h w2, of readVal] tv obtain ist' m where
    rm: "read_matrix readVal junk \<lparr>buf = matrix_text showVal M @ rest, failbit = False\<rparr> = Inr (ist', m)"
    "rows m = rows M" "cols m = cols M" "ist' = \<lparr>buf = ws' @ rest, failbit = False\<rparr>"
    "data m = map back (data M)"
    by (auto simp: size_t_of_int_of_nat r c)
  have "m = M\<lparr>data := map back (data M)\<rparr>" using rm(2,3,5) by simp
  with w rm show ?thesis by simp
qed

lemma reads_back_int: "reads_back show_int read_int v v"
proof (cases "v < 0")
  case True
  define n where "n = nat (- v)"
  have s: "show_int v = CHR ''-'' # show_nat n" using True by (simp add: show_int_def n_def)
  have "\<not> is_space CHR ''-''" by (simp add: is_space_def)
  moreover have "read_int (show_int v @ CHR '' '' # rest) = (Some v, CHR '' '' # rest)" for rest
    using show_nat_digits [of n] True
    by (simp add: s read_int_def takeWhile_append2 dropWhile_append2 list_all_iff blank_no_digit
          digits_val_show_nat n_def Let_def)
  ultimately show ?thesis by (simp add: reads_back_def s)
next
  case False
  define n where "n = nat v"
  have s: "show_int v = show_nat n" using False by (simp add: show_int_def n_def)
  have hd: "hd (show_nat n @ CHR '' '' # rest) = hd (show_nat n)" for rest
    using show_nat_digits [of n] by simp
  have "read_int (show_int v @ CHR '' '' # rest) = (Some v, CHR '' '' # rest)" for rest
    using show_nat_digits [of n] False show_nat_hd(3,4) [of n]
    by (simp add: s read_int_def hd takeWhile_append2 dropWhile_append2 list_all_iff blank_no_digit
          digits_val_show_nat n_def Let_def)
  then show ?thesis using show_nat_digits [of n] show_nat_hd(2) [of n] by (simp add: reads_back_def s)
qed

lemma reads_back_tens: "reads_back show_tens read_int v (10 * (v div 10))"
  using reads_back_int [of "10 * (v div 10)"] by (simp add: reads_back_def show_tens_def)

subsection \<open>The extraction operator of the network\<close>

lemma read_matrix_total:
  fixes readVal :: "string \<Rightarrow> 'a::zero option \<times> string"
  shows "\<exists>ist' m. read_matrix readVal junk ist = Inr (ist', m) \<and> (failbit ist \<longrightarrow> failbit ist')"
proof -
  obtain ist1 h where h: "rd_int ist (fst junk) = (ist1, h)" by (cases "rd_int ist (fst junk)")
  obtain ist2 w where w: "rd_int ist1 (snd junk) = (ist2, w)" by (cases "rd_int ist1 (snd junk)")
  have "failbit ist \<Longrightarrow> failbit ist2" using h w by (auto simp: rd_int_failed)
  with read_matrix_outcome [OF h w, of readVal] show ?thesis by (auto split: if_splits)
qed

lemma net1_blocks:
  "read_matrix read_int j \<lparr>buf = net1_text, failbit = False\<rparr>
     = Inr (\<lparr>buf = drop 9 net1_text, failbit = False\<rparr>, layerSizes net1)"
  "read_matrix read_int j \<lparr>buf = drop 9 net1_text, failbit = False\<rparr>
     = Inr (\<lparr>buf = drop 20 net1_text, failbit = False\<rparr>, biases net1 ! 0)"
  "read_matrix read_int j \<lparr>buf = drop 20 net1_text, failbit = False\<rparr>
     = Inr (\<lparr>buf = drop 28 net1_text, failbit = False\<rparr>, biases net1 ! 1)"
  "read_matrix read_int j \<lparr>buf = drop 28 net1_text, failbit = False\<rparr>
     = Inr (\<lparr>buf = drop 43 net1_text, failbit = False\<rparr>, weights net1 ! 0)"
  "read_matrix read_int j \<lparr>buf = drop 43 net1_text, failbit = False\<rparr>
     = Inr (\<lparr>buf = drop 53 net1_text, failbit = False\<rparr>, weights net1 ! 1)"
  by code_simp+

lemma read_net_appends_layerCount:
  fixes readVal :: "string \<Rightarrow> 'a::zero option \<times> string"
  assumes r: "read_net readVal junk ist dst = Inr (ist', net')"
  shows "length (biases net') = length (biases dst) + cols (layerSizes net')
     \<and> length (weights net') = length (weights dst) + cols (layerSizes net')"
proof -
  obtain ist0 sizes where s: "read_matrix readVal (junk 0) ist = Inr (ist0, sizes)"
    using read_matrix_total [of readVal "junk 0" ist] by blast
  define n0 where "n0 = dst\<lparr>layerSizes := sizes\<rparr>"
  have rs: "row_size sizes 0 = Inr (cols sizes)"
  proof (cases "0 < rows sizes")
    case True
    then show ?thesis by (simp add: row_size_def)
  next
    case False
    then have "read_net readVal junk ist dst = Inl Undefined"
      using s by (simp add: read_net_def row_size_def Let_def bindE_def)
    with r show ?thesis by simp
  qed
  define L where "L = cols sizes"
  define fb where "fb = (\<lambda>i (ist, nnet :: 'a NeuralNet).
                 bindE (read_matrix readVal (junk (Suc i)) ist) (\<lambda>(ist, temp).
                   Inr (ist, nnet\<lparr>biases := biases nnet @ [temp]\<rparr>)))"
  define fw where "fw = (\<lambda>i (ist, nnet :: 'a NeuralNet).
                 bindE (read_matrix readVal (junk (Suc (L + i))) ist) (\<lambda>(ist, temp).
                   Inr (ist, nnet\<lparr>weights := weights nnet @ [temp]\<rparr>)))"
  define P where "P i t \<longleftrightarrow> layerSizes (snd t) = sizes \<and> weights (snd t) = weights dst
      \<and> length (biases (snd t)) = length (biases dst) + i" for i and t :: "istream \<times> 'a NeuralNet"
  define Q where "Q i t \<longleftrightarrow> layerSizes (snd t) = sizes
      \<and> length (weights (snd t)) = length (weights dst) + i
      \<and> length (biases (snd t)) = length (biases dst) + L" for i and t :: "istream \<times> 'a NeuralNet"
  have "\<exists>t. foldE fb [0..<L] (ist0, n0) = Inr t \<and> P L t"
  proof (rule foldE_upt_inv)
    show "P 0 (ist0, n0)" by (simp add: P_def n0_def)
  next
    fix i and t :: "istream \<times> 'a NeuralNet" assume "i < L" and p: "P i t"
    obtain a b where t: "t = (a, b)" by (cases t)
    obtain a' m where "read_matrix readVal (junk (Suc i)) a = Inr (a', m)"
      using read_matrix_total [of readVal "junk (Suc i)" a] by blast
    then show "\<exists>t'. fb i t = Inr t' \<and> P (Suc i) t'" using p by (simp add: fb_def t P_def)
  qed
  then obtain t1 where b: "foldE fb [0..<L] (ist0, n0) = Inr t1" and p1: "P L t1" by blast
  have "\<exists>t. foldE fw [0..<L] t1 = Inr t \<and> Q L t"
  proof (rule foldE_upt_inv)
    show "Q 0 t1" using p1 by (simp add: P_def Q_def)
  next
    fix i and t :: "istream \<times> 'a NeuralNet" assume "i < L" and q: "Q i t"
    obtain a b where t: "t = (a, b)" by (cases t)
    obtain a' m where "read_matrix readVal (junk (Suc (L + i))) a = Inr (a', m)"
      using read_matrix_total [of readVal "junk (Suc (L + i))" a] by blast
    then show "\<exists>t'. fw i t = Inr t' \<and> Q (Suc i) t'" using q by (simp add: fw_def t Q_def)
  qed
  then obtain t2 where w: "foldE fw [0..<L] t1 = Inr t2" and q2: "Q L t2" by blast
  have "read_net readVal junk ist dst = Inr t2"
    using s rs b w
    by (cases t1) (simp add: read_net_def Let_def n0_def [symmetric] L_def [symmetric]
        fb_def [symmetric] fw_def [symmetric])
  with r have "t2 = (ist', net')" by simp
  with q2 show ?thesis by (simp add: Q_def L_def)
qed

section \<open>Claims about the streams\<close>

text \<open>
  Claim C7, as stated, asks of every matrix that the text \<^verbatim>\<open>operator<<\<close> writes is read
  back by \<^verbatim>\<open>operator>>\<close> as a matrix with the same rows, columns and values. The header
  is written from \<^verbatim>\<open>size_t\<close> values and read into two \<^verbatim>\<open>int\<close> variables: the matrix with
  no row and \<open>2\<^sup>3\<^sup>1\<close> columns is written with the header \<^verbatim>\<open>0 2147483648\<close>, and reading
  it sets the fail bit and gives a matrix of \<open>2\<^sup>3\<^sup>1 - 1\<close> columns. The accessors that print
  the header are declared in \<^verbatim>\<open>Matrix.h\<close>; were they to return an \<^verbatim>\<open>int\<close>, the header
  would be \<^verbatim>\<open>0 -2147483648\<close>, which is read as a matrix of \<open>2\<^sup>6\<^sup>4 - 2\<^sup>3\<^sup>1\<close> columns. No
  text at all is read without a failure as a matrix of \<open>2\<^sup>3\<^sup>1\<close> rows or columns
  (\<open>read_matrix_dims_int\<close>).
\<close>

theorem matrix_roundtrip_counterexample:
  "write_matrix show_int [] (Matrix_ctor 0 2147483648 0) = Inr (''0 2147483648'' @ [CHR 0x0A])
   \<and> read_matrix read_int (0, 0) \<lparr>buf = ''0 2147483648'' @ [CHR 0x0A], failbit = False\<rparr>
       = Inr (\<lparr>buf = [CHR 0x0A], failbit = True\<rparr>, Matrix_ctor 0 2147483647 0)
   \<and> cols (Matrix_ctor 0 2147483647 (0::int)) \<noteq> cols (Matrix_ctor 0 2147483648 (0::int))
   \<and> read_matrix read_int (0, 0) \<lparr>buf = ''0 -2147483648'' @ [CHR 0x0A], failbit = False\<rparr>
       = Inr (\<lparr>buf = [CHR 0x0A], failbit = False\<rparr>, Matrix_ctor 0 18446744071562067968 (0::int))"
  by (simp add: write_matrix_def read_matrix_def Matrix_ctor_def height_def width_def show_nat.simps
        rd_int_def is_space_def is_digit_def digits_val_def digit_val_def digit_char_def
        INT_MAX_def INT_MIN_def size_t_of_int_def Let_def char_of_def bit_Suc_0_iff)

text \<open>
  Claim C7, amended. For every matrix \<open>M\<close> whose rows and columns are each at most
  \<^verbatim>\<open>INT_MAX\<close>, and each of whose values prints as a text that the extractor reads as a
  value (\<open>reads_back\<close>: \<open>back v\<close> is the value read from the text of \<open>v\<close>), reading the
  text written for \<open>M\<close>, whatever follows it in the stream, succeeds and yields a matrix
  with the rows and the columns of \<open>M\<close> and, for each value of \<open>M\<close>, the value read back
  from its text: the values of \<open>M\<close> up to the print precision, and the values of \<open>M\<close>
  themselves where printing loses nothing. \<open>wf_m M\<close> is the invariant of the class:
  \<open>data\<close> holds \<open>rows * cols\<close> values.
\<close>

theorem matrix_roundtrip:
  fixes M :: "'a::zero Matrix"
  assumes "wf_m M" and "int (rows M) \<le> INT_MAX" and "int (cols M) \<le> INT_MAX"
    and "\<forall>v\<in>set (data M). reads_back showVal readVal v (back v)"
  shows "\<exists>text ist'. write_matrix showVal [] M = Inr text
     \<and> read_matrix readVal junk \<lparr>buf = text @ rest, failbit = False\<rparr>
         = Inr (ist', M\<lparr>data := map back (data M)\<rparr>)
     \<and> \<not> failbit ist'"
  using assms by (rule matrix_roundtrip_aux)

theorem matrix_roundtrip_witness:
  "wf_m A0 \<and> int (rows A0) \<le> INT_MAX \<and> int (cols A0) \<le> INT_MAX
   \<and> list_all (\<lambda>v. reads_back show_int read_int v v) (data A0)
   \<and> (\<exists>text ist'. write_matrix show_int [] A0 = Inr text
        \<and> read_matrix read_int (7, 8) \<lparr>buf = text @ ''rest'', failbit = False\<rparr> = Inr (ist', A0)
        \<and> \<not> failbit ist')
   \<and> wf_m C0 \<and> int (rows C0) \<le> INT_MAX \<and> int (cols C0) \<le> INT_MAX
   \<and> list_all (\<lambda>v. reads_back show_tens read_int v (10 * (v div 10))) (data C0)
   \<and> (\<exists>text ist'. write_matrix show_tens [] C0 = Inr text
        \<and> read_matrix read_int (7, 8) \<lparr>buf = text @ ''rest'', failbit = False\<rparr>
            = Inr (ist', \<lparr>data = [10, 20, 30, 40], rows = 2, cols = 2\<rparr>)
        \<and> \<not> failbit ist')"
proof -
  have a: "wf_m A0" "int (rows A0) \<le> INT_MAX" "int (cols A0) \<le> INT_MAX"
    by (simp_all add: wf_m_def A0_def INT_MAX_def)
  have b: "\<forall>v\<in>set (data A0). reads_back show_int read_int v ((\<lambda>v. v) v)"
    by (simp add: reads_back_int)
  have c: "list_all (\<lambda>v. reads_back show_int read_int v v) (data A0)"
    using b by (simp add: list_all_iff)
  have d: "wf_m C0" "int (rows C0) \<le> INT_MAX" "int (cols C0) \<le> INT_MAX"
    by (simp_all add: wf_m_def C0_def INT_MAX_def)
  have e: "\<forall>v\<in>set (data C0). reads_back show_tens read_int v ((\<lambda>v. 10 * (v div 10)) v)"
    by (simp add: reads_back_tens)
  have f: "list_all (\<lambda>v. reads_back show_tens read_int v (10 * (v div 10))) (data C0)"
    using e by (simp add: list_all_iff)
  have g: "A0\<lparr>data := map (\<lambda>v. v) (data A0)\<rparr> = A0"
    "C0\<lparr>data := map (\<lambda>v. 10 * (v div 10)) (data C0)\<rparr> = \<lparr>data = [10, 20, 30, 40], rows = 2, cols = 2\<rparr>"
    by (simp_all add: C0_def)
  from matrix_roundtrip [OF a b, of "(7, 8)" "''rest''"]
    matrix_roundtrip [OF d e, of "(7, 8)" "''rest''"] a c d f
  show ?thesis unfolding g by blast
qed




text \<open>
  Claim C4 asks that a network of \<open>L\<close> layers is written as the layer sizes, \<open>L - 1\<close>
  biases and \<open>L - 1\<close> weights, and that reading this text gives the same layer sizes,
  biases and weights. \<^verbatim>\<open>operator<<\<close> writes that; \<^verbatim>\<open>operator>>\<close> runs both of its loops
  \<open>L\<close> times (\<open>read_net_appends_layerCount\<close>). For the network \<open>net1\<close> of three layers,
  read into any network \<open>dst\<close> and whatever the uninitialised locals hold: the first
  weight is read as a third bias, the second weight as the first weight, two more matrices
  are read at the end of the text, and the stream ends with the fail bit set.
\<close>

theorem read_net_reads_one_block_too_many:
  "write_net show_int [] net1 = Inr net1_text
   \<and> (\<exists>ist' net'. read_net read_int junk \<lparr>buf = net1_text, failbit = False\<rparr> dst = Inr (ist', net')
        \<and> failbit ist' \<and> layerSizes net' = layerSizes net1
        \<and> biases net' = biases dst @ biases net1 @ [weights net1 ! 0]
        \<and> length (weights net') = length (weights dst) + 3
        \<and> weights net' ! length (weights dst) = weights net1 ! 1)"
proof -
  have w: "write_net show_int [] net1 = Inr net1_text" by code_simp
  have n: "row_size (layerSizes net1) 0 = Inr 3" by code_simp
  have u: "[0..<3] = [0, 1, 2]" by code_simp
  have bs: "biases net1 = [biases net1 ! 0, biases net1 ! 1]" by code_simp
  have "\<not> starts_numeric (drop 53 net1_text)" by code_simp
  then have "malformed_header \<lparr>buf = drop 53 net1_text, failbit = False\<rparr>"
    by (simp add: malformed_header_def)
  with read_matrix_fails_aux [of "\<lparr>buf = drop 53 net1_text, failbit = False\<rparr>" read_int "junk 5"]
  obtain e1 m1 where
    r5: "read_matrix read_int (junk 5) \<lparr>buf = drop 53 net1_text, failbit = False\<rparr> = Inr (e1, m1)"
    and f1: "failbit e1" by auto
  from read_matrix_total [of read_int "junk 6" e1] f1 obtain e2 m2 where
    r6: "read_matrix read_int (junk 6) e1 = Inr (e2, m2)" and f2: "failbit e2" by auto
  have "read_net read_int junk \<lparr>buf = net1_text, failbit = False\<rparr> dst
      = Inr (e2, dst\<lparr>layerSizes := layerSizes net1,
                     biases := biases dst @ [biases net1 ! 0, biases net1 ! 1, weights net1 ! 0],
                     weights := weights dst @ [weights net1 ! 1, m1, m2]\<rparr>)"
    by (simp add: read_net_def net1_blocks n u r5 r6 Let_def)
  with w f2 bs show ?thesis by (simp add: nth_append)
qed

end
